theory Spec2Isabelle
  imports Main
begin

section \<open>JavaScript values\<close>

text \<open>
  The values that flow through the combinators of \<^verbatim>\<open>px.js\<close>. Numbers are the integers,
  which stand for themselves as long as they are exactly representable, plus \<^verbatim>\<open>NaN\<close>.
  Objects carry the identity they were allocated with, since \<^verbatim>\<open>===\<close> compares objects by
  reference; they are not mutated once made, so two values with the same identity are the
  same value. An array has its elements, an error its name and its message. The only
  thenables are the promises.
\<close>

datatype val =
    VUndefined
  | VNull
  | VBool bool
  | VNum int
  | VNaN
  | VStr string
  | VArray nat "val list"
  | VError nat string string
  | VPromise nat

text \<open>The operator \<^verbatim>\<open>===\<close>: \<^verbatim>\<open>NaN\<close> is not equal to anything, itself included.\<close>

fun strict_eq :: "val \<Rightarrow> val \<Rightarrow> bool" where
  "strict_eq VNaN y = False"
| "strict_eq x VNaN = False"
| "strict_eq x y = (x = y)"

text \<open>The truthiness test of \<^verbatim>\<open>c ? a : b\<close> and \<^verbatim>\<open>if (c)\<close>.\<close>

fun truthy :: "val \<Rightarrow> bool" where
  "truthy VUndefined = False"
| "truthy VNull = False"
| "truthy (VBool b) = b"
| "truthy (VNum n) = (n \<noteq> 0)"
| "truthy VNaN = False"
| "truthy (VStr s) = (s \<noteq> [])"
| "truthy (VArray i xs) = True"
| "truthy (VError i n m) = True"
| "truthy (VPromise p) = True"

text \<open>A value is thenable when promise resolution adopts it instead of storing it.\<close>

fun thenable :: "val \<Rightarrow> bool" where
  "thenable (VPromise p) = True"
| "thenable v = False"

text \<open>Reading \<^verbatim>\<open>args[i]\<close>: a missing argument is \<^verbatim>\<open>undefined\<close>.\<close>

definition arg :: "val list \<Rightarrow> nat \<Rightarrow> val" where
  "arg xs i = (if i < length xs then xs ! i else VUndefined)"

text \<open>How a call ends: with a returned value or with a thrown one.\<close>

datatype completion = Return val | Throw val

section \<open>Functions supplied by the caller, closures built by the library\<close>

text \<open>
  A function of the caller is a HOL function over the caller's own state \<open>'u\<close>; its name
  tags its invocations in the trace. \<open>StrictEq\<close> is the closure
  \<^verbatim>\<open>(x, y) => x === y\<close> of \<^verbatim>\<open>Promise.equals\<close>.
\<close>

datatype 'u fn =
    UserFn string "'u \<Rightarrow> val list \<Rightarrow> completion \<times> 'u"
  | StrictEq

text \<open>
  What an executor written by the caller does with its two parameters: it calls
  \<^verbatim>\<open>resolve\<close> or \<^verbatim>\<open>reject\<close> at once, hands one of them to \<^verbatim>\<open>setTimeout\<close>, or throws.
\<close>

datatype action =
    CallRes val
  | CallRej val
  | LaterRes nat val
  | LaterRej nat val
  | Raise val

text \<open>
  The executors (\<^verbatim>\<open>PromiseExecutor\<close>): those of the caller and those that
  \<^verbatim>\<open>px.js\<close> writes as arrow functions.
\<close>

datatype 'u supplier =
    SupResolve val            \<comment> \<open>\<^verbatim>\<open>res => res(value)\<close>\<close>
  | SupReject val             \<comment> \<open>\<^verbatim>\<open>(res, rej) => rej(value)\<close>\<close>
  | SupDelayedResolve val nat \<comment> \<open>\<^verbatim>\<open>res => { setTimeout(res, amount, value); }\<close>\<close>
  | SupDelayedReject val nat  \<comment> \<open>\<^verbatim>\<open>(res, rej) => { setTimeout(rej, amount, value); }\<close>\<close>
  | SupTimeoutCheck nat nat nat \<comment> \<open>the executor inside \<^verbatim>\<open>timeout\<close>: the flag, \<^verbatim>\<open>this\<close>, the amount\<close>
  | SupUser string "'u \<Rightarrow> action list \<times> 'u"

text \<open>
  The continuations that can be registered on a promise: the defaults of \<^verbatim>\<open>then\<close>, the
  resolving functions, a continuation of the caller, and one constructor for every arrow
  function that \<^verbatim>\<open>px.js\<close> passes to \<^verbatim>\<open>then\<close>, holding the variables it captures.
\<close>

datatype 'u handler =
    Ident                                 \<comment> \<open>\<^verbatim>\<open>x => x\<close>, also the default \<^verbatim>\<open>onFulfilled\<close>\<close>
  | Thrower                               \<comment> \<open>the default \<^verbatim>\<open>onRejected\<close>\<close>
  | ResolveFn nat                         \<comment> \<open>the \<^verbatim>\<open>resolve\<close> of a promise\<close>
  | RejectFn nat                          \<comment> \<open>the \<^verbatim>\<open>reject\<close> of a promise\<close>
  | ThenableResolve nat                   \<comment> \<open>the fresh \<^verbatim>\<open>resolve\<close> made for adopting a thenable\<close>
  | ThenableReject nat                    \<comment> \<open>the fresh \<^verbatim>\<open>reject\<close> made for adopting a thenable\<close>
  | UserH "'u fn"                         \<comment> \<open>a continuation of the caller\<close>
  | RetryAlways "'u supplier"             \<comment> \<open>\<^verbatim>\<open>() => resub()\<close>\<close>
  | RetryTest "'u supplier" nat "'u fn"   \<comment> \<open>\<^verbatim>\<open>x => fn(++tries, x) ? resub() : Promise.reject(x)\<close>\<close>
  | ContainsTest "'u fn" val              \<comment> \<open>\<^verbatim>\<open>x => bipredicate(x, value)\<close>\<close>
  | ContainsEq val                        \<comment> \<open>\<^verbatim>\<open>x => x === value\<close>\<close>
  | CompareH "'u fn"                      \<comment> \<open>\<^verbatim>\<open>x => comparator(x[0], x[1])\<close>\<close>
  | AllElement nat nat nat nat            \<comment> \<open>the resolve-element function of \<^verbatim>\<open>Promise.all\<close>\<close>
  | MarkSuccess nat                       \<comment> \<open>\<^verbatim>\<open>() => {success = true;}\<close>\<close>
  | FinallyOk "'u fn"                     \<comment> \<open>\<^verbatim>\<open>res => Promise.resolve(onFinally()).then(() => res)\<close>\<close>
  | FinallyErr "'u fn"                    \<comment> \<open>\<^verbatim>\<open>err => Promise.resolve(onFinally()).then(() => { throw err; })\<close>\<close>
  | ReturnConst val                       \<comment> \<open>\<^verbatim>\<open>() => res\<close>\<close>
  | ThrowConst val                        \<comment> \<open>\<^verbatim>\<open>() => { throw err; }\<close>\<close>

text \<open>The callbacks handed to \<^verbatim>\<open>setTimeout\<close>.\<close>

datatype timer_cb =
    TimerSettle bool nat val   \<comment> \<open>\<^verbatim>\<open>setTimeout(res, amount, x)\<close> (\<open>True\<close>) or \<^verbatim>\<open>setTimeout(rej, amount, x)\<close>\<close>
  | TimeoutCheck nat nat nat   \<comment> \<open>the arrow function of \<^verbatim>\<open>timeout\<close>: the flag, \<^verbatim>\<open>this\<close>, the new promise\<close>

section \<open>The promise primitive and the event loop\<close>

datatype pstate = Pending | Fulfilled val | Rejected val

record cell =
  pstate :: pstate
  locked :: bool

datatype 'u job =
    ReactionJob "'u handler" "'u handler" nat pstate
  | ThenableJob nat nat

text \<open>What the trace records: a call of a function of the caller, a settlement.\<close>

datatype event =
    Called string "val list"
  | Settled nat pstate nat

text \<open>
  The reactions registered on pending promises are kept in one list, in registration
  order: an entry \<open>(p, onFulfilled, onRejected, d)\<close> waits for \<open>p\<close> and will settle \<open>d\<close>.
  The reaction list of \<open>p\<close> is the sublist of the entries that wait for \<open>p\<close>.
\<close>

record 'u rt =
  heap :: "nat \<Rightarrow> cell"
  fresh :: nat
  waiting :: "(nat \<times> 'u handler \<times> 'u handler \<times> nat) list"
  vars :: "nat \<Rightarrow> val"
  nvars :: nat
  jobs :: "'u job list"
  timers :: "(nat \<times> timer_cb) list"
  clock :: nat
  user :: 'u
  trace :: "event list"

definition empty_cell :: cell where
  "empty_cell = \<lparr>pstate = Pending, locked = False\<rparr>"

definition init :: "'u \<Rightarrow> 'u rt" where
  "init u = \<lparr>heap = (\<lambda>p. empty_cell), fresh = 0, waiting = [], vars = (\<lambda>i. VUndefined), nvars = 0,
             jobs = [], timers = [], clock = 0, user = u, trace = []\<rparr>"

text \<open>A new object takes the next identity; a promise starts pending.\<close>

definition alloc :: "'u rt \<Rightarrow> nat \<times> 'u rt" where
  "alloc s = (fresh s, s\<lparr>heap := (heap s)(fresh s := empty_cell), fresh := Suc (fresh s)\<rparr>)"

text \<open>A \<^verbatim>\<open>let\<close> variable captured by a closure is a cell of the variable store.\<close>

definition new_var :: "val \<Rightarrow> 'u rt \<Rightarrow> nat \<times> 'u rt" where
  "new_var v s = (nvars s, s\<lparr>vars := (vars s)(nvars s := v), nvars := Suc (nvars s)\<rparr>)"

definition set_var :: "nat \<Rightarrow> val \<Rightarrow> 'u rt \<Rightarrow> 'u rt" where
  "set_var i v s = s\<lparr>vars := (vars s)(i := v)\<rparr>"

text \<open>
  Settling a promise stores the outcome, empties its reaction list and queues one job
  for every reaction that was registered, in registration order.
\<close>

definition settle :: "nat \<Rightarrow> pstate \<Rightarrow> 'u rt \<Rightarrow> 'u rt" where
  "settle p st s =
     s\<lparr>heap := (heap s)(p := (heap s p)\<lparr>pstate := st\<rparr>),
       waiting := [w \<leftarrow> waiting s. fst w \<noteq> p],
       jobs := jobs s @ [ReactionJob f r d st. (q, f, r, d) \<leftarrow> waiting s, q = p],
       trace := trace s @ [Settled p st (clock s)]\<rparr>"

text \<open>
  The body of a resolve function: a promise resolved with itself is rejected, a promise
  resolved with another promise adopts it in a later job, anything else fulfils it.
\<close>

definition promise_resolve :: "nat \<Rightarrow> val \<Rightarrow> 'u rt \<Rightarrow> 'u rt" where
  "promise_resolve p v s =
     (case v of
        VPromise q \<Rightarrow>
          if q = p
          then settle p (Rejected (VError (fresh s) ''TypeError'' ''Chaining cycle detected for promise #<Promise>''))
                 (s\<lparr>fresh := Suc (fresh s)\<rparr>)
          else s\<lparr>jobs := jobs s @ [ThenableJob p q]\<rparr>
      | _ \<Rightarrow> settle p (Fulfilled v) s)"

text \<open>
  The pair \<^verbatim>\<open>resolve\<close>, \<^verbatim>\<open>reject\<close> given to an executor shares one flag: the first call
  of either sets it, every later call returns at once.
\<close>

definition resolve_fn :: "nat \<Rightarrow> val \<Rightarrow> 'u rt \<Rightarrow> 'u rt" where
  "resolve_fn p v s =
     (if locked (heap s p) then s
      else promise_resolve p v (s\<lparr>heap := (heap s)(p := (heap s p)\<lparr>locked := True\<rparr>)\<rparr>))"

definition reject_fn :: "nat \<Rightarrow> val \<Rightarrow> 'u rt \<Rightarrow> 'u rt" where
  "reject_fn p v s =
     (if locked (heap s p) then s
      else settle p (Rejected v) (s\<lparr>heap := (heap s)(p := (heap s p)\<lparr>locked := True\<rparr>)\<rparr>))"

text \<open>
  \<^verbatim>\<open>setTimeout(cb, amount)\<close> of the host, with the time in whole milliseconds: Node runs an
  amount below 1 or above \<open>2^31 - 1\<close> as 1, and the callback is due that long after the
  current time.
\<close>

definition timer_delay :: "nat \<Rightarrow> nat" where
  "timer_delay amount = (if amount < 1 \<or> 2147483647 < amount then 1 else amount)"

definition setTimeout :: "timer_cb \<Rightarrow> nat \<Rightarrow> 'u rt \<Rightarrow> 'u rt" where
  "setTimeout cb amount s = s\<lparr>timers := timers s @ [(clock s + timer_delay amount, cb)]\<rparr>"

text \<open>
  \<^verbatim>\<open>p.then(onFulfilled, onRejected)\<close>: a new promise for the result; the pair of
  continuations is registered when \<open>p\<close> is pending and queued as a job when it is settled.
\<close>

definition Promise_then :: "nat \<Rightarrow> 'u handler \<Rightarrow> 'u handler \<Rightarrow> 'u rt \<Rightarrow> nat \<times> 'u rt" where
  "Promise_then p onF onR s =
     (let made = alloc s; d = fst made; s1 = snd made in
      (d, case pstate (heap s1 p) of
            Pending \<Rightarrow> s1\<lparr>waiting := waiting s1 @ [(p, onF, onR, d)]\<rparr>
          | Fulfilled v \<Rightarrow> s1\<lparr>jobs := jobs s1 @ [ReactionJob onF onR d (Fulfilled v)]\<rparr>
          | Rejected v \<Rightarrow> s1\<lparr>jobs := jobs s1 @ [ReactionJob onF onR d (Rejected v)]\<rparr>))"

text \<open>Running the executor of the caller; an exception it throws is caught by the constructor.\<close>

fun exec_actions :: "action list \<Rightarrow> nat \<Rightarrow> 'u rt \<Rightarrow> 'u rt" where
  "exec_actions [] p s = s"
| "exec_actions (CallRes v # as) p s = exec_actions as p (resolve_fn p v s)"
| "exec_actions (CallRej v # as) p s = exec_actions as p (reject_fn p v s)"
| "exec_actions (LaterRes t v # as) p s = exec_actions as p (setTimeout (TimerSettle True p v) t s)"
| "exec_actions (LaterRej t v # as) p s = exec_actions as p (setTimeout (TimerSettle False p v) t s)"
| "exec_actions (Raise e # as) p s = reject_fn p e s"

fun run_supplier :: "'u supplier \<Rightarrow> nat \<Rightarrow> 'u rt \<Rightarrow> 'u rt" where
  "run_supplier (SupResolve v) p s = resolve_fn p v s"
| "run_supplier (SupReject v) p s = reject_fn p v s"
| "run_supplier (SupDelayedResolve v amount) p s = setTimeout (TimerSettle True p v) amount s"
| "run_supplier (SupDelayedReject v amount) p s = setTimeout (TimerSettle False p v) amount s"
| "run_supplier (SupTimeoutCheck success this amount) p s =
     setTimeout (TimeoutCheck success this p) amount s"
| "run_supplier (SupUser name f) p s =
     (let did = f (user s) in
      exec_actions (fst did) p (s\<lparr>user := snd did, trace := trace s @ [Called name []]\<rparr>))"

text \<open>\<^verbatim>\<open>new Promise(executor)\<close>: the executor runs inside the constructor.\<close>

definition new_Promise :: "'u supplier \<Rightarrow> 'u rt \<Rightarrow> nat \<times> 'u rt" where
  "new_Promise sp s = (let made = alloc s in (fst made, run_supplier sp (fst made) (snd made)))"

text \<open>\<^verbatim>\<open>Promise.resolve(x)\<close> returns a promise unchanged and wraps any other value.\<close>

definition Promise_resolve :: "val \<Rightarrow> 'u rt \<Rightarrow> nat \<times> 'u rt" where
  "Promise_resolve x s =
     (case x of VPromise q \<Rightarrow> (q, s) | _ \<Rightarrow> new_Promise (SupResolve x) s)"

definition Promise_reject :: "val \<Rightarrow> 'u rt \<Rightarrow> nat \<times> 'u rt" where
  "Promise_reject x s = new_Promise (SupReject x) s"

text \<open>Calling a function of the caller records the call and threads the caller's state.\<close>

fun call_fn :: "'u fn \<Rightarrow> val list \<Rightarrow> 'u rt \<Rightarrow> completion \<times> 'u rt" where
  "call_fn (UserFn name f) args s =
     (let did = f (user s) args in
      (fst did, s\<lparr>user := snd did, trace := trace s @ [Called name args]\<rparr>))"
| "call_fn StrictEq args s = (Return (VBool (strict_eq (arg args 0) (arg args 1))), s)"

text \<open>Reading a captured variable as a number, as a list.\<close>

fun num_of :: "val \<Rightarrow> int" where
  "num_of (VNum n) = n"
| "num_of v = 0"

fun elems_of :: "val \<Rightarrow> val list" where
  "elems_of (VArray i xs) = xs"
| "elems_of v = []"




section \<open>DeferredPromise\<close>

datatype 'u DeferredPromise = DeferredPromise (supplier: "'u supplier")

definition DeferredPromise_resolve :: "val \<Rightarrow> 'u DeferredPromise" where
  "DeferredPromise_resolve v = DeferredPromise (SupResolve v)"

definition DeferredPromise_reject :: "val \<Rightarrow> 'u DeferredPromise" where
  "DeferredPromise_reject v = DeferredPromise (SupReject v)"

definition DeferredPromise_fromCallable :: "'u fn \<Rightarrow> 'u rt \<Rightarrow> 'u DeferredPromise \<times> 'u rt" where
  "DeferredPromise_fromCallable executor s =
     (let called = call_fn executor [] s in
      case fst called of
        Throw e \<Rightarrow> (DeferredPromise_reject e, snd called)
      | Return result \<Rightarrow> (DeferredPromise_resolve result, snd called))"

definition DeferredPromise_then ::
  "'u DeferredPromise \<Rightarrow> 'u handler \<Rightarrow> 'u handler \<Rightarrow> 'u rt \<Rightarrow> nat \<times> 'u rt" where
  "DeferredPromise_then this res rej s =
     (let made = new_Promise (supplier this) s in Promise_then (fst made) res rej (snd made))"

definition DeferredPromise_catch :: "'u DeferredPromise \<Rightarrow> 'u handler \<Rightarrow> 'u rt \<Rightarrow> nat \<times> 'u rt" where
  "DeferredPromise_catch this rej s =
     (let made = new_Promise (supplier this) s in Promise_then (fst made) Ident rej (snd made))"

definition DeferredPromise_toPromise :: "'u DeferredPromise \<Rightarrow> 'u rt \<Rightarrow> nat \<times> 'u rt" where
  "DeferredPromise_toPromise this s = new_Promise (supplier this) s"

text \<open>The two \<^verbatim>\<open>resub\<close> closures of \<^verbatim>\<open>retry\<close>, without and with the tester.\<close>

definition resub_always :: "'u supplier \<Rightarrow> 'u rt \<Rightarrow> nat \<times> 'u rt" where
  "resub_always sp s =
     (let made = new_Promise sp s in Promise_then (fst made) Ident (RetryAlways sp) (snd made))"

definition resub_test :: "'u supplier \<Rightarrow> nat \<Rightarrow> 'u fn \<Rightarrow> 'u rt \<Rightarrow> nat \<times> 'u rt" where
  "resub_test sp tries f s =
     (let made = new_Promise sp s
      in Promise_then (fst made) Ident (RetryTest sp tries f) (snd made))"

definition DeferredPromise_retry :: "'u DeferredPromise \<Rightarrow> 'u fn option \<Rightarrow> 'u rt \<Rightarrow> nat \<times> 'u rt" where
  "DeferredPromise_retry this fn s =
     (case fn of
        Some f \<Rightarrow>
          (let tries = new_var (VNum 0) s in resub_test (supplier this) (fst tries) f (snd tries))
      | None \<Rightarrow> resub_always (supplier this) s)"

section \<open>PublishedPromise\<close>

datatype PublishedPromise = PublishedPromise (promise: nat)

definition new_PublishedPromise :: "'u supplier option \<Rightarrow> 'u rt \<Rightarrow> PublishedPromise \<times> 'u rt" where
  "new_PublishedPromise fn s =
     (let made = alloc s in
      (PublishedPromise (fst made),
       case fn of Some f \<Rightarrow> run_supplier f (fst made) (snd made) | None \<Rightarrow> snd made))"

definition PublishedPromise_resolve :: "PublishedPromise \<Rightarrow> val \<Rightarrow> 'u rt \<Rightarrow> 'u rt" where
  "PublishedPromise_resolve this v s = resolve_fn (promise this) v s"

definition PublishedPromise_reject :: "PublishedPromise \<Rightarrow> val \<Rightarrow> 'u rt \<Rightarrow> 'u rt" where
  "PublishedPromise_reject this v s = reject_fn (promise this) v s"

definition PublishedPromise_then ::
  "PublishedPromise \<Rightarrow> 'u handler \<Rightarrow> 'u handler \<Rightarrow> 'u rt \<Rightarrow> nat \<times> 'u rt" where
  "PublishedPromise_then this res rej s = Promise_then (promise this) res rej s"

definition PublishedPromise_catch :: "PublishedPromise \<Rightarrow> 'u handler \<Rightarrow> 'u rt \<Rightarrow> nat \<times> 'u rt" where
  "PublishedPromise_catch this rej s = Promise_then (promise this) Ident rej s"

definition PublishedPromise_toPromise :: "PublishedPromise \<Rightarrow> nat" where
  "PublishedPromise_toPromise this = promise this"

section \<open>The extensions of Promise\<close>

definition Promise_contains :: "nat \<Rightarrow> val \<Rightarrow> 'u fn option \<Rightarrow> 'u rt \<Rightarrow> nat \<times> 'u rt" where
  "Promise_contains this v bipredicate s =
     (case bipredicate of
        Some f \<Rightarrow> Promise_then this (ContainsTest f v) Thrower s
      | None \<Rightarrow> Promise_then this (ContainsEq v) Thrower s)"



definition Promise_publish :: "'u supplier option \<Rightarrow> 'u rt \<Rightarrow> PublishedPromise \<times> 'u rt" where
  "Promise_publish fn s = new_PublishedPromise fn s"


definition Promise_finally :: "nat \<Rightarrow> 'u fn \<Rightarrow> 'u rt \<Rightarrow> nat \<times> 'u rt" where
  "Promise_finally this onFinally s = Promise_then this (FinallyOk onFinally) (FinallyErr onFinally) s"

definition DeferredPromise_finally :: "'u DeferredPromise \<Rightarrow> 'u fn \<Rightarrow> 'u rt \<Rightarrow> nat \<times> 'u rt" where
  "DeferredPromise_finally this fin s =
     (let made = new_Promise (supplier this) s in Promise_finally (fst made) fin (snd made))"

definition PublishedPromise_finally :: "PublishedPromise \<Rightarrow> 'u fn \<Rightarrow> 'u rt \<Rightarrow> nat \<times> 'u rt" where
  "PublishedPromise_finally this fin s = Promise_finally (promise this) fin s"

definition Promise_fromCallable :: "'u fn \<Rightarrow> 'u rt \<Rightarrow> nat \<times> 'u rt" where
  "Promise_fromCallable executor s =
     (let called = call_fn executor [] s in
      case fst called of
        Throw e \<Rightarrow> Promise_reject e (snd called)
      | Return result \<Rightarrow> Promise_resolve result (snd called))"

definition Promise_fromCallableDeferred :: "'u fn \<Rightarrow> 'u rt \<Rightarrow> 'u DeferredPromise \<times> 'u rt" where
  "Promise_fromCallableDeferred executor s = DeferredPromise_fromCallable executor s"

definition Promise_delayedResolve :: "val \<Rightarrow> nat \<Rightarrow> 'u rt \<Rightarrow> nat \<times> 'u rt" where
  "Promise_delayedResolve v amount s = new_Promise (SupDelayedResolve v amount) s"

definition Promise_delayedReject :: "val \<Rightarrow> nat \<Rightarrow> 'u rt \<Rightarrow> nat \<times> 'u rt" where
  "Promise_delayedReject v amount s = new_Promise (SupDelayedReject v amount) s"

section \<open>Running continuations, jobs and timers\<close>

fun call_handler :: "'u handler \<Rightarrow> val \<Rightarrow> 'u rt \<Rightarrow> completion \<times> 'u rt" where
  "call_handler Ident x s = (Return x, s)"
| "call_handler Thrower x s = (Throw x, s)"
| "call_handler (ResolveFn p) x s = (Return VUndefined, resolve_fn p x s)"
| "call_handler (RejectFn p) x s = (Return VUndefined, reject_fn p x s)"
| "call_handler (ThenableResolve p) x s = (Return VUndefined, promise_resolve p x s)"
| "call_handler (ThenableReject p) x s = (Return VUndefined, settle p (Rejected x) s)"
| "call_handler (UserH f) x s = call_fn f [x] s"
| "call_handler (RetryAlways sp) x s =
     (let again = resub_always sp s in (Return (VPromise (fst again)), snd again))"
| "call_handler (RetryTest sp tries f) x s =
     (let n = num_of (vars s tries) + 1;
          s1 = set_var tries (VNum n) s;
          called = call_fn f [VNum n, x] s1
      in case fst called of
           Throw e \<Rightarrow> (Throw e, snd called)
         | Return b \<Rightarrow>
             if truthy b
             then (let again = resub_test sp tries f (snd called)
                   in (Return (VPromise (fst again)), snd again))
             else (let failed = Promise_reject x (snd called)
                   in (Return (VPromise (fst failed)), snd failed)))"
| "call_handler (ContainsTest f v) x s = call_fn f [x, v] s"
| "call_handler (ContainsEq v) x s = (Return (VBool (strict_eq x v)), s)"
| "call_handler (CompareH f) x s = call_fn f [arg (elems_of x) 0, arg (elems_of x) 1] s"
| "call_handler (AllElement d vals cnt i) x s =
     (let s1 = set_var vals (VArray 0 ((elems_of (vars s vals))[i := x])) s;
          s2 = set_var cnt (VNum (num_of (vars s1 cnt) - 1)) s1
      in (Return VUndefined,
          if num_of (vars s2 cnt) = 0
          then resolve_fn d (VArray (fresh s2) (elems_of (vars s2 vals))) (s2\<lparr>fresh := Suc (fresh s2)\<rparr>)
          else s2))"
| "call_handler (MarkSuccess success) x s = (Return VUndefined, set_var success (VBool True) s)"
| "call_handler (FinallyOk onFinally) res s =
     (let called = call_fn onFinally [] s in
      case fst called of
        Throw e \<Rightarrow> (Throw e, snd called)
      | Return w \<Rightarrow>
          (let wrapped = Promise_resolve w (snd called);
               chained = Promise_then (fst wrapped) (ReturnConst res) Thrower (snd wrapped)
           in (Return (VPromise (fst chained)), snd chained)))"
| "call_handler (FinallyErr onFinally) err s =
     (let called = call_fn onFinally [] s in
      case fst called of
        Throw e \<Rightarrow> (Throw e, snd called)
      | Return w \<Rightarrow>
          (let wrapped = Promise_resolve w (snd called);
               chained = Promise_then (fst wrapped) (ThrowConst err) Thrower (snd wrapped)
           in (Return (VPromise (fst chained)), snd chained)))"
| "call_handler (ReturnConst res) x s = (Return res, s)"
| "call_handler (ThrowConst err) x s = (Throw err, s)"

text \<open>The result of a continuation settles the promise that \<^verbatim>\<open>then\<close> returned.\<close>

fun finish :: "nat \<Rightarrow> completion \<Rightarrow> 'u rt \<Rightarrow> 'u rt" where
  "finish d (Return v) s = resolve_fn d v s"
| "finish d (Throw e) s = reject_fn d e s"

fun run_job :: "'u job \<Rightarrow> 'u rt \<Rightarrow> 'u rt" where
  "run_job (ReactionJob onF onR d Pending) s = s"
| "run_job (ReactionJob onF onR d (Fulfilled v)) s =
     (let called = call_handler onF v s in finish d (fst called) (snd called))"
| "run_job (ReactionJob onF onR d (Rejected v)) s =
     (let called = call_handler onR v s in finish d (fst called) (snd called))"
| "run_job (ThenableJob p q) s = snd (Promise_then q (ThenableResolve p) (ThenableReject p) s)"

fun fire :: "timer_cb \<Rightarrow> 'u rt \<Rightarrow> 'u rt" where
  "fire (TimerSettle True p v) s = resolve_fn p v s"
| "fire (TimerSettle False p v) s = reject_fn p v s"
| "fire (TimeoutCheck success this r) s =
     (if truthy (vars s success)
      then resolve_fn r (VPromise this) s
      else reject_fn r (VError (fresh s) ''Error'' ''Promise TimeoutException'') (s\<lparr>fresh := Suc (fresh s)\<rparr>))"

text \<open>The timer that fires next: the earliest due, the first registered among equals.\<close>

fun take_timer :: "(nat \<times> timer_cb) list \<Rightarrow> ((nat \<times> timer_cb) \<times> (nat \<times> timer_cb) list) option" where
  "take_timer [] = None"
| "take_timer (x # xs) =
     (case take_timer xs of
        None \<Rightarrow> Some (x, [])
      | Some later \<Rightarrow>
          if fst (fst later) < fst x then Some (fst later, x # snd later) else Some (x, xs))"

text \<open>
  One turn of the event loop: the oldest job if there is one, otherwise the next timer,
  with the clock moved to its due time; \<open>None\<close> when nothing is left to run.
\<close>

definition step :: "'u rt \<Rightarrow> 'u rt option" where
  "step s =
     (if jobs s \<noteq> [] then Some (run_job (hd (jobs s)) (s\<lparr>jobs := tl (jobs s)\<rparr>))
      else
        (case take_timer (timers s) of
           None \<Rightarrow> None
         | Some next \<Rightarrow>
             Some (fire (snd (fst next))
                     (s\<lparr>timers := snd next, clock := max (clock s) (fst (fst next))\<rparr>))))"

fun run :: "nat \<Rightarrow> 'u rt \<Rightarrow> 'u rt" where
  "run 0 s = s"
| "run (Suc n) s = (case step s of None \<Rightarrow> s | Some s1 \<Rightarrow> run n s1)"

definition idle :: "'u rt \<Rightarrow> bool" where
  "idle s = (jobs s = [] \<and> timers s = [])"

text \<open>Reading the trace.\<close>

definition calls :: "string \<Rightarrow> 'u rt \<Rightarrow> val list list" where
  "calls name s = [args. Called n args \<leftarrow> trace s, n = name]"

definition settlements :: "nat \<Rightarrow> 'u rt \<Rightarrow> (pstate \<times> nat) list" where
  "settlements p s = [(st, t). Settled q st t \<leftarrow> trace s, q = p]"

definition state_of :: "nat \<Rightarrow> 'u rt \<Rightarrow> pstate" where
  "state_of p s = pstate (heap s p)"

section \<open>Programs that use the library\<close>

text \<open>
  A promise that a caller can hand to a combinator, described by how it was made:
  \<^verbatim>\<open>Promise.resolve(x)\<close>, \<^verbatim>\<open>Promise.reject(e)\<close>, \<^verbatim>\<open>Promise.delayedResolve(x, t)\<close>,
  \<^verbatim>\<open>Promise.delayedReject(e, t)\<close>, or \<^verbatim>\<open>new Promise(() => {})\<close>, which never settles.
\<close>

datatype source =
    Resolved val
  | Failed val
  | ResolvesAfter nat val
  | FailsAfter nat val
  | Unsettled

fun make_source :: "source \<Rightarrow> 'u rt \<Rightarrow> nat \<times> 'u rt" where
  "make_source (Resolved x) s = Promise_resolve x s"
| "make_source (Failed e) s = Promise_reject e s"
| "make_source (ResolvesAfter t x) s = Promise_delayedResolve x t s"
| "make_source (FailsAfter t e) s = Promise_delayedReject e t s"
| "make_source Unsettled s = alloc s"

text \<open>
  The source succeeds with \<open>x\<close>, fails with \<open>e\<close>. A promise is never fulfilled with a
  thenable, so a value it succeeds with is not one.
\<close>

fun succeeds :: "source \<Rightarrow> val \<Rightarrow> bool" where
  "succeeds (Resolved y) x = (y = x \<and> \<not> thenable x)"
| "succeeds (ResolvesAfter t y) x = (y = x \<and> \<not> thenable x)"
| "succeeds src x = False"

fun fails :: "source \<Rightarrow> val \<Rightarrow> bool" where
  "fails (Failed y) e = (y = e)"
| "fails (FailsAfter t y) e = (y = e)"
| "fails src e = False"

fun proper :: "source \<Rightarrow> bool" where
  "proper (Resolved x) = (\<not> thenable x)"
| "proper (ResolvesAfter t x) = (\<not> thenable x)"
| "proper src = True"

text \<open>A continuation that only records what it is given, as \<^verbatim>\<open>console.log\<close> does.\<close>

definition observer :: "string \<Rightarrow> 'u handler" where
  "observer name = UserH (UserFn name (\<lambda>u args. (Return VUndefined, u)))"

text \<open>\<^verbatim>\<open>d.then(onResolve, onReject); d.then(onResolve, onReject);\<close> and the event loop.\<close>

definition attach_twice :: "'u DeferredPromise \<Rightarrow> 'u rt \<Rightarrow> 'u rt" where
  "attach_twice d s =
     (let first = DeferredPromise_then d (observer ''onResolve'') (observer ''onReject'') s;
          second = DeferredPromise_then d (observer ''onResolve'') (observer ''onReject'') (snd first)
      in run 12 (snd second))"

text \<open>
  A producer of the caller that settles its promise at once,
  \<^verbatim>\<open>(res, rej) => { ... ok ? res(x) : rej(x) }\<close>, with an outcome \<open>g\<close> that depends on the
  state of the caller and changes it; the actions of one that settles it through
  \<^verbatim>\<open>setTimeout\<close>, after \<open>t\<close>.
\<close>

fun settling :: "completion \<Rightarrow> action list" where
  "settling (Return v) = [CallRes v]"
| "settling (Throw e) = [CallRej e]"

fun settling_after :: "nat \<Rightarrow> completion \<Rightarrow> action list" where
  "settling_after t (Return v) = [LaterRes t v]"
| "settling_after t (Throw e) = [LaterRej t e]"

definition producer :: "('u \<Rightarrow> completion \<times> 'u) \<Rightarrow> 'u supplier" where
  "producer g = SupUser ''producer'' (\<lambda>u. (settling (fst (g u)), snd (g u)))"

text \<open>
  The state such an outcome leaves its promise in, provided that a value it succeeds with
  is not a thenable; the state of the promise that \<^verbatim>\<open>catch(onReject)\<close> returns for it, with
  a continuation that returns \<^verbatim>\<open>undefined\<close>.
\<close>

fun settles_as :: "completion \<Rightarrow> pstate" where
  "settles_as (Return v) = Fulfilled v"
| "settles_as (Throw e) = Rejected e"

fun direct :: "completion \<Rightarrow> bool" where
  "direct (Return v) = (\<not> thenable v)"
| "direct (Throw e) = True"

fun caught :: "completion \<Rightarrow> pstate" where
  "caught (Return v) = Fulfilled v"
| "caught (Throw e) = Fulfilled VUndefined"

text \<open>
  \<^verbatim>\<open>d.catch(onReject)\<close>, \<^verbatim>\<open>d.finally(onFinally)\<close> and \<^verbatim>\<open>d.toPromise()\<close>, each called twice
  on the same DeferredPromise, and the event loop.
\<close>

definition catch_twice :: "'u DeferredPromise \<Rightarrow> 'u rt \<Rightarrow> nat \<times> nat \<times> 'u rt" where
  "catch_twice d s =
     (let first = DeferredPromise_catch d (observer ''onReject'') s;
          second = DeferredPromise_catch d (observer ''onReject'') (snd first)
      in (fst first, fst second, run 12 (snd second)))"

definition finally_twice :: "'u DeferredPromise \<Rightarrow> 'u rt \<Rightarrow> nat \<times> nat \<times> 'u rt" where
  "finally_twice d s =
     (let fin = UserFn ''onFinally'' (\<lambda>u args. (Return VUndefined, u));
          first = DeferredPromise_finally d fin s;
          second = DeferredPromise_finally d fin (snd first)
      in (fst first, fst second, run 12 (snd second)))"

definition toPromise_twice :: "'u DeferredPromise \<Rightarrow> 'u rt \<Rightarrow> nat \<times> nat \<times> 'u rt" where
  "toPromise_twice d s =
     (let first = DeferredPromise_toPromise d s;
          second = DeferredPromise_toPromise d (snd first)
      in (fst first, fst second, run 12 (snd second)))"

text \<open>
  The pair of continuations is attached to \<open>p\<close>, for the result \<open>d\<close>: it is registered on
  \<open>p\<close>, or already queued with the state of \<open>p\<close>.
\<close>

definition attached :: "nat \<Rightarrow> 'u handler \<Rightarrow> 'u handler \<Rightarrow> nat \<Rightarrow> 'u rt \<Rightarrow> bool" where
  "attached p onF onR d s =
     ((p, onF, onR, d) \<in> set (waiting s)
      \<or> ReactionJob onF onR d (pstate (heap s p)) \<in> set (jobs s))"

text \<open>The example of the documentation, \<^verbatim>\<open>() => "hello world"\<close>, counting its calls.\<close>

definition hello :: "nat fn" where
  "hello = UserFn ''executor'' (\<lambda>u args. (Return (VStr ''hello world''), Suc u))"

text \<open>
  What a producer does on one attempt: it fails or succeeds, at once or through
  \<^verbatim>\<open>setTimeout\<close>.
\<close>

datatype timing = Now | After nat

fun failing :: "timing \<Rightarrow> val \<Rightarrow> action list" where
  "failing Now e = [CallRej e]"
| "failing (After t) e = [LaterRej t e]"

fun succeeding :: "timing \<Rightarrow> val \<Rightarrow> action list" where
  "succeeding Now v = [CallRes v]"
| "succeeding (After t) v = [LaterRes t v]"

fun returns :: "completion \<Rightarrow> bool" where
  "returns (Return v) = True"
| "returns (Throw e) = False"

text \<open>\<^verbatim>\<open>new DeferredPromise(producer).retry(fn)\<close> and \<open>n\<close> turns of the event loop.\<close>

definition retry_run :: "'u supplier \<Rightarrow> 'u fn option \<Rightarrow> nat \<Rightarrow> 'u \<Rightarrow> nat \<times> 'u rt" where
  "retry_run sp fn n u =
     (let made = DeferredPromise_retry (DeferredPromise sp) fn (init u)
      in (fst made, run n (snd made)))"

text \<open>\<^verbatim>\<open>src.contains(v, bipredicate)\<close> and the event loop.\<close>

definition contains_run :: "source \<Rightarrow> val \<Rightarrow> 'u fn option \<Rightarrow> 'u \<Rightarrow> nat \<times> 'u rt" where
  "contains_run src v bipredicate u =
     (let this = make_source src (init u);
          made = Promise_contains (fst this) v bipredicate (snd this)
      in (fst made, run 8 (snd made)))"










text \<open>
  \<^verbatim>\<open>src.finally(onFinally)\<close> and the event loop; \<open>other\<close> is a second promise, made
  before the call, which the finalizer \<open>g q\<close> may return.
\<close>

definition finally_run ::
  "source \<Rightarrow> source \<Rightarrow> (nat \<Rightarrow> 'u \<Rightarrow> val list \<Rightarrow> completion \<times> 'u) \<Rightarrow> 'u \<Rightarrow> nat \<times> 'u rt" where
  "finally_run src other g u =
     (let this = make_source src (init u);
          q = make_source other (snd this);
          made = Promise_finally (fst this) (UserFn ''onFinally'' (g (fst q))) (snd q)
      in (fst made, run 12 (snd made)))"

text \<open>How a source ends.\<close>

fun outcome :: "source \<Rightarrow> pstate" where
  "outcome (Resolved x) = Fulfilled x"
| "outcome (ResolvesAfter t x) = Fulfilled x"
| "outcome (Failed e) = Rejected e"
| "outcome (FailsAfter t e) = Rejected e"
| "outcome Unsettled = Pending"

text \<open>
  What \<^verbatim>\<open>finally\<close> gives when the finalizer returns a promise: the outcome of the source
  once that promise is fulfilled, its failure if it is rejected, nothing while it is pending.
\<close>

fun awaited :: "pstate \<Rightarrow> pstate \<Rightarrow> pstate" where
  "awaited Pending other = Pending"
| "awaited st (Fulfilled w) = st"
| "awaited st (Rejected x) = Rejected x"
| "awaited st Pending = Pending"

text \<open>
  What \<^verbatim>\<open>src.finally(onFinally)\<close> comes to: the loop ends, the new promise is in the state
  \<open>st\<close>, and the finalizer has been called once if the source settles, never otherwise.
\<close>

definition finally_gives ::
  "source \<Rightarrow> source \<Rightarrow> (nat \<Rightarrow> 'u \<Rightarrow> val list \<Rightarrow> completion \<times> 'u) \<Rightarrow> 'u \<Rightarrow> pstate \<Rightarrow> bool" where
  "finally_gives src other g u st =
     (case finally_run src other g u of (r, s) \<Rightarrow>
        idle s \<and> state_of r s = st
        \<and> calls ''onFinally'' s = (if outcome src = Pending then [] else [[]]))"

text \<open>
  \<^verbatim>\<open>let p = Promise.publish(fn); p.then(onResolve, onReject);\<close>, then the settling calls of
  the caller, each followed by some turns of the event loop.
\<close>

datatype call = CallResolve val | CallReject val | Turns nat

fun do_call :: "PublishedPromise \<Rightarrow> call \<Rightarrow> 'u rt \<Rightarrow> 'u rt" where
  "do_call p (CallResolve v) s = PublishedPromise_resolve p v s"
| "do_call p (CallReject v) s = PublishedPromise_reject p v s"
| "do_call p (Turns n) s = run n s"

fun do_calls :: "PublishedPromise \<Rightarrow> call list \<Rightarrow> 'u rt \<Rightarrow> 'u rt" where
  "do_calls p [] s = s"
| "do_calls p (c # cs) s = do_calls p cs (do_call p c s)"

text \<open>The turns of the event loop that a list of calls asks for.\<close>

fun turns :: "call list \<Rightarrow> nat" where
  "turns [] = 0"
| "turns (Turns n # cs) = n + turns cs"
| "turns (c # cs) = turns cs"

definition publish_run :: "'u supplier option \<Rightarrow> call list \<Rightarrow> 'u rt \<Rightarrow> PublishedPromise \<times> 'u rt" where
  "publish_run fn cs s =
     (let p = Promise_publish fn s;
          attached = PublishedPromise_then (fst p) (observer ''onResolve'') (observer ''onReject'') (snd p)
      in (fst p, do_calls (fst p) cs (snd attached)))"

section \<open>An invariant of retrying without a tester\<close>

text \<open>
  A promise is never fulfilled with a thenable. A state is one of failure, or not.
\<close>

fun plain :: "pstate \<Rightarrow> bool" where
  "plain (Fulfilled v) = (\<not> thenable v)"
| "plain st = True"

fun failed :: "pstate \<Rightarrow> bool" where
  "failed (Rejected e) = True"
| "failed st = False"

text \<open>
  The promises that \<^verbatim>\<open>resub\<close> returns form the set \<open>G\<close>. A pair of continuations that is
  registered or queued either is the pair \<^verbatim>\<open>x => x\<close>, \<^verbatim>\<open>() => resub()\<close> with a result in
  \<open>G\<close>, or the pair that adopts a thenable for a promise \<open>t\<close>, with a result outside
  \<open>G\<close>; a promise of \<open>G\<close> adopts promises of \<open>G\<close> only, a timer settles a promise outside
  \<open>G\<close>, and no promise of \<open>G\<close> has failed.
\<close>

definition okpair :: "nat set \<Rightarrow> nat \<Rightarrow> 'u handler \<Rightarrow> 'u handler \<Rightarrow> nat \<Rightarrow> bool" where
  "okpair G n f r d =
     (d < n \<and>
      ((f = Ident \<and> (\<exists>sp. r = RetryAlways sp) \<and> d \<in> G)
       \<or> (\<exists>t<n. f = ThenableResolve t \<and> r = ThenableReject t \<and> d \<notin> G)))"

fun okjob :: "nat set \<Rightarrow> nat \<Rightarrow> 'u job \<Rightarrow> bool" where
  "okjob G n (ReactionJob f r d st) =
     (okpair G n f r d \<and> plain st \<and> (\<forall>t\<in>G. r = ThenableReject t \<longrightarrow> \<not> failed st))"
| "okjob G n (ThenableJob t q) = (t < n \<and> (t \<in> G \<longrightarrow> q \<in> G))"

fun okwait :: "nat set \<Rightarrow> nat \<Rightarrow> (nat \<times> 'u handler \<times> 'u handler \<times> nat) \<Rightarrow> bool" where
  "okwait G n (q, f, r, d) = (okpair G n f r d \<and> (\<forall>t\<in>G. r = ThenableReject t \<longrightarrow> q \<in> G))"

fun oktimer :: "nat set \<Rightarrow> nat \<Rightarrow> timer_cb \<Rightarrow> bool" where
  "oktimer G n (TimerSettle b p v) = (p < n \<and> p \<notin> G)"
| "oktimer G n (TimeoutCheck f this r) = (r < n \<and> r \<notin> G)"

definition guarded :: "nat set \<Rightarrow> 'u rt \<Rightarrow> bool" where
  "guarded G s =
     ((\<forall>d\<in>G. d < fresh s \<and> \<not> failed (pstate (heap s d)))
      \<and> (\<forall>p. plain (pstate (heap s p)))
      \<and> (\<forall>w \<in> set (waiting s). okwait G (fresh s) w)
      \<and> (\<forall>j \<in> set (jobs s). okjob G (fresh s) j)
      \<and> (\<forall>t \<in> set (timers s). oktimer G (fresh s) (snd t)))"

section \<open>An invariant of settlement\<close>

text \<open>
  Once a resolving function of \<open>p\<close> has been called, \<open>p\<close> is sealed: its flag is set.
\<close>

definition sealed :: "nat \<Rightarrow> 'u rt \<Rightarrow> bool" where
  "sealed p s = (p < fresh s \<and> locked (heap s p))"

text \<open>
  What can still settle \<open>p\<close> after its flag is set is a carrier: the job that adopts a
  thenable for \<open>p\<close>, or the pair of continuations that this job registers. The carriers
  of \<open>p\<close> and its settlements are counted together.
\<close>

fun carries_h :: "nat \<Rightarrow> 'u handler \<Rightarrow> bool" where
  "carries_h p (ThenableResolve q) = (q = p)"
| "carries_h p (ThenableReject q) = (q = p)"
| "carries_h p h = False"

fun carries_j :: "nat \<Rightarrow> 'u job \<Rightarrow> bool" where
  "carries_j p (ReactionJob f r d st) = (carries_h p f \<or> carries_h p r)"
| "carries_j p (ThenableJob t q) = (t = p)"

fun carries_w :: "nat \<Rightarrow> (nat \<times> 'u handler \<times> 'u handler \<times> nat) \<Rightarrow> bool" where
  "carries_w p (q, f, r, d) = (carries_h p f \<or> carries_h p r)"

definition tokens :: "nat \<Rightarrow> 'u rt \<Rightarrow> nat" where
  "tokens p s = length (filter (carries_j p) (jobs s)) + length (filter (carries_w p) (waiting s))
                + length (settlements p s)"

text \<open>
  The invariant: carriers and settlements of \<open>p\<close> are at most one in all, and none
  unless the flag of \<open>p\<close> is set. When a carrier of \<open>p\<close> runs, the flag is set and the
  count is zero.
\<close>

definition once :: "nat \<Rightarrow> 'u rt \<Rightarrow> bool" where
  "once p s = (p < fresh s \<and> tokens p s \<le> 1 \<and> (0 < tokens p s \<longrightarrow> locked (heap s p)))"

definition spent :: "nat \<Rightarrow> 'u rt \<Rightarrow> bool" where
  "spent p s = (p < fresh s \<and> tokens p s = 0 \<and> locked (heap s p))"

section \<open>Symbolic execution\<close>

text \<open>
  The programs below are run by rewriting. The facts collected in \<open>rt_defs\<close> unfold one
  operation at a time; a bound state is substituted only once it has been evaluated.
\<close>

lemma run_numeral:
  "run (numeral k) s = (case step s of None \<Rightarrow> s | Some s1 \<Rightarrow> run (pred_numeral k) s1)"
  by (simp add: numeral_eq_Suc)

lemma promise_resolve_plain:
  "\<not> thenable v \<Longrightarrow> promise_resolve p v s = settle p (Fulfilled v) s"
  by (cases v) (simp_all add: promise_resolve_def)

lemma promise_resolve_promise:
  "promise_resolve p (VPromise q) s =
     (if q = p
      then settle p (Rejected (VError (fresh s) ''TypeError'' ''Chaining cycle detected for promise #<Promise>''))
             (s\<lparr>fresh := Suc (fresh s)\<rparr>)
      else s\<lparr>jobs := jobs s @ [ThenableJob p q]\<rparr>)"
  by (simp add: promise_resolve_def)

lemma Promise_resolve_plain:
  "\<not> thenable x \<Longrightarrow> Promise_resolve x s = new_Promise (SupResolve x) s"
  by (cases x) (simp_all add: Promise_resolve_def)

lemma Promise_resolve_promise: "Promise_resolve (VPromise q) s = (q, s)"
  by (simp add: Promise_resolve_def)

lemmas rt_defs = alloc_def new_var_def set_var_def settle_def resolve_fn_def reject_fn_def
  setTimeout_def Promise_then_def new_Promise_def Promise_reject_def
  Promise_delayedResolve_def Promise_delayedReject_def
  step_def idle_def calls_def settlements_def state_of_def init_def empty_cell_def
  run_numeral promise_resolve_plain promise_resolve_promise
  Promise_resolve_plain Promise_resolve_promise Let_def

lemma run_add: "run (m + n) s = run n (run m s)"
proof (induction m arbitrary: s)
  case 0
  show ?case by simp
next
  case (Suc m)
  show ?case
  proof (cases "step s")
    case None
    then have "run n s = s" by (cases n) simp_all
    with None show ?thesis by simp
  next
    case (Some s1)
    with Suc show ?thesis by simp
  qed
qed

section \<open>The trace of calls\<close>

lemma calls_settle [simp]: "calls n (settle p st s) = calls n s"
  by (simp add: calls_def settle_def)

lemma calls_promise_resolve [simp]: "calls n (promise_resolve p v s) = calls n s"
  by (cases v) (simp_all add: promise_resolve_def calls_def settle_def)

lemma calls_resolve_fn [simp]: "calls n (resolve_fn p v s) = calls n s"
  by (simp add: resolve_fn_def) (simp add: calls_def)

lemma calls_reject_fn [simp]: "calls n (reject_fn p v s) = calls n s"
  by (simp add: reject_fn_def) (simp add: calls_def)

lemma calls_setTimeout [simp]: "calls n (setTimeout cb t s) = calls n s"
  by (simp add: setTimeout_def calls_def)

lemma calls_alloc [simp]: "calls n (snd (alloc s)) = calls n s"
  by (simp add: alloc_def calls_def)

lemma calls_set_var [simp]: "calls n (set_var i v s) = calls n s"
  by (simp add: set_var_def calls_def)

lemma calls_then [simp]: "calls n (snd (Promise_then p f r s)) = calls n s"
  by (simp add: Promise_then_def Let_def alloc_def calls_def split: pstate.splits)

lemma calls_exec_actions [simp]: "calls n (exec_actions acts p s) = calls n s"
  by (induction acts p s rule: exec_actions.induct) simp_all

lemma calls_new_Promise_user:
  "calls name (snd (new_Promise (SupUser name f) s)) = calls name s @ [[]]"
  by (simp add: new_Promise_def Let_def) (simp add: calls_def alloc_def)

lemma calls_new_Promise_const [simp]:
  "calls n (snd (new_Promise (SupResolve v) s)) = calls n s"
  "calls n (snd (new_Promise (SupReject v) s)) = calls n s"
  by (simp_all add: new_Promise_def Let_def)

lemma fst_new_Promise [simp]: "fst (new_Promise sp s) = fresh s"
  by (simp add: new_Promise_def Let_def alloc_def)

lemma calls_fromCallableDeferred:
  "calls name (snd (Promise_fromCallableDeferred (UserFn name f) s)) = calls name s @ [[]]"
  by (cases "fst (f (user s) [])")
     (simp_all add: Promise_fromCallableDeferred_def DeferredPromise_fromCallable_def calls_def Let_def)

lemma strict_eq_refl: "v \<noteq> VNaN \<Longrightarrow> strict_eq v v"
  by (cases v) simp_all

lemma strict_eq_eq: "strict_eq a b \<Longrightarrow> a = b"
  by (cases a; cases b) simp_all

section \<open>DeferredPromise\<close>

lemmas deferred_defs = Promise_fromCallableDeferred_def DeferredPromise_fromCallable_def
  hello_def attach_twice_def observer_def DeferredPromise_then_def DeferredPromise_resolve_def

text \<open>
  C1. The claim: \<^verbatim>\<open>fromCallableDeferred(fn)\<close> stores a producer that invokes \<^verbatim>\<open>fn\<close>, so
  \<^verbatim>\<open>fn\<close> runs at every attachment and not at construction. The code runs the executor
  inside \<^verbatim>\<open>DeferredPromise.fromCallable\<close> itself: for the executor of the documentation,
  one call is recorded when the DeferredPromise is built, and two attachments followed by
  the event loop add none, although both continuations receive the value.
\<close>

theorem fromCallableDeferred_runs_executor_at_construction:
  "calls ''executor'' (snd (Promise_fromCallableDeferred hello (init 0))) = [[]]
   \<and> calls ''executor''
        (attach_twice (fst (Promise_fromCallableDeferred hello (init 0)))
           (snd (Promise_fromCallableDeferred hello (init 0)))) = [[]]
   \<and> calls ''onResolve''
        (attach_twice (fst (Promise_fromCallableDeferred hello (init 0)))
           (snd (Promise_fromCallableDeferred hello (init 0))))
       = [[VStr ''hello world''], [VStr ''hello world'']]
   \<and> idle (attach_twice (fst (Promise_fromCallableDeferred hello (init 0)))
             (snd (Promise_fromCallableDeferred hello (init 0))))"
  by (simp add: deferred_defs rt_defs cong: let_weak_cong)

text \<open>
  C2, as the claim states it, at a value that is a promise: \<^verbatim>\<open>DeferredPromise.resolve(q)\<close>
  with \<open>q\<close> already fulfilled with \<open>1\<close>, attached twice, delivers \<open>1\<close> twice and never
  \<open>q\<close> itself, since resolving a promise with a promise adopts it.
\<close>

theorem deferred_resolve_of_promise_delivers_its_value:
  "calls ''onResolve''
     (attach_twice (DeferredPromise_resolve (VPromise 0))
        (snd (Promise_resolve (VNum 1) (init ()))))
   = [[VNum 1], [VNum 1]]"
  by (simp add: deferred_defs rt_defs cong: let_weak_cong)

lemmas twice_defs = attach_twice_def catch_twice_def finally_twice_def toPromise_twice_def
  producer_def observer_def DeferredPromise_then_def DeferredPromise_catch_def
  DeferredPromise_finally_def DeferredPromise_toPromise_def Promise_finally_def

lemma resolve_twice_delivers_twice:
  "\<not> thenable v \<Longrightarrow>
   calls ''onResolve'' (attach_twice (DeferredPromise_resolve v) (init u)) = [[v], [v]]
   \<and> calls ''onReject'' (attach_twice (DeferredPromise_resolve v) (init u)) = []
   \<and> idle (attach_twice (DeferredPromise_resolve v) (init u))"
  by (simp add: deferred_defs rt_defs cong: let_weak_cong)

lemma then_twice_each_its_own:
  "g u = (c1, u1) \<Longrightarrow> g u1 = (c2, u2) \<Longrightarrow> direct c1 \<Longrightarrow> direct c2 \<Longrightarrow>
   idle (attach_twice (DeferredPromise (producer g)) (init u))
   \<and> calls ''producer'' (attach_twice (DeferredPromise (producer g)) (init u)) = [[], []]
   \<and> user (attach_twice (DeferredPromise (producer g)) (init u)) = u2
   \<and> calls ''onResolve'' (attach_twice (DeferredPromise (producer g)) (init u))
       = [[v]. Return v \<leftarrow> [c1, c2]]
   \<and> calls ''onReject'' (attach_twice (DeferredPromise (producer g)) (init u))
       = [[e]. Throw e \<leftarrow> [c1, c2]]"
  by (cases c1; cases c2) (simp_all add: twice_defs rt_defs cong: let_weak_cong)

lemma catch_twice_each_its_own:
  "g u = (c1, u1) \<Longrightarrow> g u1 = (c2, u2) \<Longrightarrow> direct c1 \<Longrightarrow> direct c2 \<Longrightarrow>
   (case catch_twice (DeferredPromise (producer g)) (init u) of (r1, r2, s) \<Rightarrow>
      idle s \<and> calls ''producer'' s = [[], []] \<and> user s = u2
      \<and> calls ''onReject'' s = [[e]. Throw e \<leftarrow> [c1, c2]]
      \<and> r1 \<noteq> r2 \<and> state_of r1 s = caught c1 \<and> state_of r2 s = caught c2)"
  by (cases c1; cases c2) (simp_all add: twice_defs rt_defs cong: let_weak_cong)

lemma finally_twice_each_its_own:
  "g u = (c1, u1) \<Longrightarrow> g u1 = (c2, u2) \<Longrightarrow> direct c1 \<Longrightarrow> direct c2 \<Longrightarrow>
   (case finally_twice (DeferredPromise (producer g)) (init u) of (r1, r2, s) \<Rightarrow>
      idle s \<and> calls ''producer'' s = [[], []] \<and> user s = u2
      \<and> calls ''onFinally'' s = [[], []]
      \<and> r1 \<noteq> r2 \<and> state_of r1 s = settles_as c1 \<and> state_of r2 s = settles_as c2)"
  by (cases c1; cases c2) (simp_all add: twice_defs rt_defs cong: let_weak_cong)

lemma toPromise_twice_each_its_own:
  "g u = (c1, u1) \<Longrightarrow> g u1 = (c2, u2) \<Longrightarrow> direct c1 \<Longrightarrow> direct c2 \<Longrightarrow>
   (case toPromise_twice (DeferredPromise (producer g)) (init u) of (r1, r2, s) \<Rightarrow>
      idle s \<and> calls ''producer'' s = [[], []] \<and> user s = u2
      \<and> r1 \<noteq> r2 \<and> state_of r1 s = settles_as c1 \<and> state_of r2 s = settles_as c2)"
  by (cases c1; cases c2) (simp_all add: twice_defs rt_defs cong: let_weak_cong)

lemma fresh_settle [simp]: "fresh (settle p st s) = fresh s"
  by (simp add: settle_def)

lemma fresh_promise_resolve: "fresh s \<le> fresh (promise_resolve p v s)"
  by (cases v) (simp_all add: promise_resolve_def)

lemma fresh_resolve_fn: "fresh s \<le> fresh (resolve_fn p v s)"
  using fresh_promise_resolve [of "s\<lparr>heap := (heap s)(p := (heap s p)\<lparr>locked := True\<rparr>)\<rparr>" p v]
  by (simp add: resolve_fn_def)

lemma fresh_reject_fn [simp]: "fresh (reject_fn p v s) = fresh s"
  by (simp add: reject_fn_def)

lemma fresh_setTimeout [simp]: "fresh (setTimeout cb t s) = fresh s"
  by (simp add: setTimeout_def)

lemma fresh_exec_actions: "fresh s \<le> fresh (exec_actions acts p s)"
proof (induction acts p s rule: exec_actions.induct)
  case (2 v as p s)
  then show ?case using fresh_resolve_fn [of s p v] by simp
qed simp_all

lemma fresh_run_supplier: "fresh s \<le> fresh (run_supplier sp p s)"
proof (cases sp)
  case (SupUser name f)
  then show ?thesis
    using fresh_exec_actions
            [of "s\<lparr>user := snd (f (user s)), trace := trace s @ [Called name []]\<rparr>"
                "fst (f (user s))" p]
    by (simp add: Let_def)
qed (simp_all add: fresh_resolve_fn)

lemma fresh_new_Promise: "fresh s < fresh (snd (new_Promise sp s))"
  using fresh_run_supplier [of "snd (alloc s)" sp "fresh s"]
  by (simp add: new_Promise_def Let_def alloc_def)

lemma then_attaches:
  "p < fresh s \<Longrightarrow>
   fst (Promise_then p onF onR s) = fresh s
   \<and> attached p onF onR (fresh s) (snd (Promise_then p onF onR s))"
  by (cases "pstate (heap s p)") (simp_all add: Promise_then_def attached_def Let_def alloc_def)

lemma deferred_then_attaches:
  "fresh s < fst (DeferredPromise_then d res rej s)
   \<and> attached (fresh s) res rej (fst (DeferredPromise_then d res rej s))
       (snd (DeferredPromise_then d res rej s))"
  using fresh_new_Promise [of s "supplier d"]
    then_attaches [of "fresh s" "snd (new_Promise (supplier d) s)" res rej]
  by (simp add: DeferredPromise_then_def Let_def)

lemma deferred_catch_attaches:
  "fresh s < fst (DeferredPromise_catch d rej s)
   \<and> attached (fresh s) Ident rej (fst (DeferredPromise_catch d rej s))
       (snd (DeferredPromise_catch d rej s))"
  using fresh_new_Promise [of s "supplier d"]
    then_attaches [of "fresh s" "snd (new_Promise (supplier d) s)" Ident rej]
  by (simp add: DeferredPromise_catch_def Let_def)

lemma deferred_finally_attaches:
  "fresh s < fst (DeferredPromise_finally d fin s)
   \<and> attached (fresh s) (FinallyOk fin) (FinallyErr fin) (fst (DeferredPromise_finally d fin s))
       (snd (DeferredPromise_finally d fin s))"
  using fresh_new_Promise [of s "supplier d"]
    then_attaches [of "fresh s" "snd (new_Promise (supplier d) s)" "FinallyOk fin" "FinallyErr fin"]
  by (simp add: DeferredPromise_finally_def Promise_finally_def Let_def)

lemma attachment_calls_producer:
  "calls name (snd (DeferredPromise_then (DeferredPromise (SupUser name f)) res rej s))
     = calls name s @ [[]]
   \<and> calls name (snd (DeferredPromise_catch (DeferredPromise (SupUser name f)) rej s))
       = calls name s @ [[]]
   \<and> calls name (snd (DeferredPromise_finally (DeferredPromise (SupUser name f)) fin s))
       = calls name s @ [[]]
   \<and> calls name (snd (DeferredPromise_toPromise (DeferredPromise (SupUser name f)) s))
       = calls name s @ [[]]"
  by (simp add: DeferredPromise_then_def DeferredPromise_catch_def
      DeferredPromise_finally_def DeferredPromise_toPromise_def Promise_finally_def
      Let_def calls_new_Promise_user)

text \<open>
  C2, amended. For every value \<open>v\<close> that is not thenable, \<^verbatim>\<open>DeferredPromise.resolve(v)\<close>
  attached twice runs the success continuation twice, each time with \<open>v\<close>, and never the
  failure continuation. Nothing is memoized: for a producer whose outcome changes from one
  run to the next, two calls of \<^verbatim>\<open>then\<close>, of \<^verbatim>\<open>catch\<close>, of \<^verbatim>\<open>finally\<close> or of \<^verbatim>\<open>toPromise\<close>
  run it twice, and the first attachment gets the outcome of the first run, the second
  that of the second run: the continuations are called with them, the two promises
  returned are different and settle accordingly. For every producer and in every state,
  each of the four operations runs the producer once more, on a promise that is allocated
  by the operation; \<^verbatim>\<open>toPromise\<close> returns that promise, the other three attach their
  continuations to it and return a newer one.
\<close>

theorem deferred_attachment_reinvokes_producer:
  "(\<not> thenable v \<longrightarrow>
      calls ''onResolve'' (attach_twice (DeferredPromise_resolve v) (init u)) = [[v], [v]]
      \<and> calls ''onReject'' (attach_twice (DeferredPromise_resolve v) (init u)) = []
      \<and> idle (attach_twice (DeferredPromise_resolve v) (init u)))
   \<and> (g u = (c1, u1) \<and> g u1 = (c2, u2) \<and> direct c1 \<and> direct c2 \<longrightarrow>
      (idle (attach_twice (DeferredPromise (producer g)) (init u))
       \<and> calls ''producer'' (attach_twice (DeferredPromise (producer g)) (init u)) = [[], []]
       \<and> user (attach_twice (DeferredPromise (producer g)) (init u)) = u2
       \<and> calls ''onResolve'' (attach_twice (DeferredPromise (producer g)) (init u))
           = [[x]. Return x \<leftarrow> [c1, c2]]
       \<and> calls ''onReject'' (attach_twice (DeferredPromise (producer g)) (init u))
           = [[e]. Throw e \<leftarrow> [c1, c2]])
      \<and> (case catch_twice (DeferredPromise (producer g)) (init u) of (r1, r2, s') \<Rightarrow>
           idle s' \<and> calls ''producer'' s' = [[], []] \<and> user s' = u2
           \<and> calls ''onReject'' s' = [[e]. Throw e \<leftarrow> [c1, c2]]
           \<and> r1 \<noteq> r2 \<and> state_of r1 s' = caught c1 \<and> state_of r2 s' = caught c2)
      \<and> (case finally_twice (DeferredPromise (producer g)) (init u) of (r1, r2, s') \<Rightarrow>
           idle s' \<and> calls ''producer'' s' = [[], []] \<and> user s' = u2
           \<and> calls ''onFinally'' s' = [[], []]
           \<and> r1 \<noteq> r2 \<and> state_of r1 s' = settles_as c1 \<and> state_of r2 s' = settles_as c2)
      \<and> (case toPromise_twice (DeferredPromise (producer g)) (init u) of (r1, r2, s') \<Rightarrow>
           idle s' \<and> calls ''producer'' s' = [[], []] \<and> user s' = u2
           \<and> r1 \<noteq> r2 \<and> state_of r1 s' = settles_as c1 \<and> state_of r2 s' = settles_as c2))
   \<and> (fresh s < fst (DeferredPromise_then d res rej s)
       \<and> attached (fresh s) res rej (fst (DeferredPromise_then d res rej s))
           (snd (DeferredPromise_then d res rej s)))
   \<and> (fresh s < fst (DeferredPromise_catch d rej s)
       \<and> attached (fresh s) Ident rej (fst (DeferredPromise_catch d rej s))
           (snd (DeferredPromise_catch d rej s)))
   \<and> (fresh s < fst (DeferredPromise_finally d fin s)
       \<and> attached (fresh s) (FinallyOk fin) (FinallyErr fin)
           (fst (DeferredPromise_finally d fin s)) (snd (DeferredPromise_finally d fin s)))
   \<and> fst (DeferredPromise_toPromise d s) = fresh s
   \<and> (calls name (snd (DeferredPromise_then (DeferredPromise (SupUser name f)) res rej s))
         = calls name s @ [[]]
       \<and> calls name (snd (DeferredPromise_catch (DeferredPromise (SupUser name f)) rej s))
           = calls name s @ [[]]
       \<and> calls name (snd (DeferredPromise_finally (DeferredPromise (SupUser name f)) fin s))
           = calls name s @ [[]]
       \<and> calls name (snd (DeferredPromise_toPromise (DeferredPromise (SupUser name f)) s))
           = calls name s @ [[]])"
proof -
  have a: "\<not> thenable v \<longrightarrow>
      calls ''onResolve'' (attach_twice (DeferredPromise_resolve v) (init u)) = [[v], [v]]
      \<and> calls ''onReject'' (attach_twice (DeferredPromise_resolve v) (init u)) = []
      \<and> idle (attach_twice (DeferredPromise_resolve v) (init u))"
    using resolve_twice_delivers_twice [of v u] by simp
  have b: "g u = (c1, u1) \<and> g u1 = (c2, u2) \<and> direct c1 \<and> direct c2 \<longrightarrow>
      (idle (attach_twice (DeferredPromise (producer g)) (init u))
       \<and> calls ''producer'' (attach_twice (DeferredPromise (producer g)) (init u)) = [[], []]
       \<and> user (attach_twice (DeferredPromise (producer g)) (init u)) = u2
       \<and> calls ''onResolve'' (attach_twice (DeferredPromise (producer g)) (init u))
           = [[x]. Return x \<leftarrow> [c1, c2]]
       \<and> calls ''onReject'' (attach_twice (DeferredPromise (producer g)) (init u))
           = [[e]. Throw e \<leftarrow> [c1, c2]])
      \<and> (case catch_twice (DeferredPromise (producer g)) (init u) of (r1, r2, s') \<Rightarrow>
           idle s' \<and> calls ''producer'' s' = [[], []] \<and> user s' = u2
           \<and> calls ''onReject'' s' = [[e]. Throw e \<leftarrow> [c1, c2]]
           \<and> r1 \<noteq> r2 \<and> state_of r1 s' = caught c1 \<and> state_of r2 s' = caught c2)
      \<and> (case finally_twice (DeferredPromise (producer g)) (init u) of (r1, r2, s') \<Rightarrow>
           idle s' \<and> calls ''producer'' s' = [[], []] \<and> user s' = u2
           \<and> calls ''onFinally'' s' = [[], []]
           \<and> r1 \<noteq> r2 \<and> state_of r1 s' = settles_as c1 \<and> state_of r2 s' = settles_as c2)
      \<and> (case toPromise_twice (DeferredPromise (producer g)) (init u) of (r1, r2, s') \<Rightarrow>
           idle s' \<and> calls ''producer'' s' = [[], []] \<and> user s' = u2
           \<and> r1 \<noteq> r2 \<and> state_of r1 s' = settles_as c1 \<and> state_of r2 s' = settles_as c2)"
  proof (intro impI)
    assume "g u = (c1, u1) \<and> g u1 = (c2, u2) \<and> direct c1 \<and> direct c2"
    then have h: "g u = (c1, u1)" "g u1 = (c2, u2)" "direct c1" "direct c2"
      by simp_all
    show "(idle (attach_twice (DeferredPromise (producer g)) (init u))
       \<and> calls ''producer'' (attach_twice (DeferredPromise (producer g)) (init u)) = [[], []]
       \<and> user (attach_twice (DeferredPromise (producer g)) (init u)) = u2
       \<and> calls ''onResolve'' (attach_twice (DeferredPromise (producer g)) (init u))
           = [[x]. Return x \<leftarrow> [c1, c2]]
       \<and> calls ''onReject'' (attach_twice (DeferredPromise (producer g)) (init u))
           = [[e]. Throw e \<leftarrow> [c1, c2]])
      \<and> (case catch_twice (DeferredPromise (producer g)) (init u) of (r1, r2, s') \<Rightarrow>
           idle s' \<and> calls ''producer'' s' = [[], []] \<and> user s' = u2
           \<and> calls ''onReject'' s' = [[e]. Throw e \<leftarrow> [c1, c2]]
           \<and> r1 \<noteq> r2 \<and> state_of r1 s' = caught c1 \<and> state_of r2 s' = caught c2)
      \<and> (case finally_twice (DeferredPromise (producer g)) (init u) of (r1, r2, s') \<Rightarrow>
           idle s' \<and> calls ''producer'' s' = [[], []] \<and> user s' = u2
           \<and> calls ''onFinally'' s' = [[], []]
           \<and> r1 \<noteq> r2 \<and> state_of r1 s' = settles_as c1 \<and> state_of r2 s' = settles_as c2)
      \<and> (case toPromise_twice (DeferredPromise (producer g)) (init u) of (r1, r2, s') \<Rightarrow>
           idle s' \<and> calls ''producer'' s' = [[], []] \<and> user s' = u2
           \<and> r1 \<noteq> r2 \<and> state_of r1 s' = settles_as c1 \<and> state_of r2 s' = settles_as c2)"
      by (rule conjI [OF then_twice_each_its_own [OF h]
            conjI [OF catch_twice_each_its_own [OF h]
              conjI [OF finally_twice_each_its_own [OF h] toPromise_twice_each_its_own [OF h]]]])
  qed
  have c: "fst (DeferredPromise_toPromise d s) = fresh s"
    by (simp add: DeferredPromise_toPromise_def)
  show ?thesis
    by (rule conjI [OF a conjI [OF b conjI [OF deferred_then_attaches
          conjI [OF deferred_catch_attaches conjI [OF deferred_finally_attaches
            conjI [OF c attachment_calls_producer]]]]]])
qed

theorem deferred_attachment_reinvokes_producer_witness:
  "\<not> thenable (VNum 5)
   \<and> calls ''onResolve'' (attach_twice (DeferredPromise_resolve (VNum 5)) (init (1::nat)))
       = [[VNum 5], [VNum 5]]
   \<and> direct (Return (VNum 1)) \<and> direct (Return (VNum 2))
   \<and> calls ''onResolve''
        (attach_twice (DeferredPromise (producer (\<lambda>n. (Return (VNum (int n)), Suc n)))) (init 1))
       = [[VNum 1], [VNum 2]]"
  using deferred_attachment_reinvokes_producer
          [THEN conjunct1, of "VNum 5" "1::nat"]
        deferred_attachment_reinvokes_producer
          [THEN conjunct2, THEN conjunct1,
           of "\<lambda>n. (Return (VNum (int n)), Suc n)" "1::nat"
              "Return (VNum 1)" 2 "Return (VNum 2)" 3]
  by simp
section \<open>contains\<close>

lemmas contains_defs = contains_run_def Promise_contains_def

lemma contains_strict:
  "succeeds src x \<Longrightarrow>
   (case contains_run src v None u of (r, s) \<Rightarrow>
      idle s \<and> state_of r s = Fulfilled (VBool (strict_eq x v)))"
  by (cases src) (simp_all add: contains_defs rt_defs cong: let_weak_cong)

lemma contains_tested:
  "succeeds src x \<Longrightarrow> f u [x, v] = (Return (VBool b), u') \<Longrightarrow>
   (case contains_run src v (Some (UserFn ''bipredicate'' f)) u of (r, s) \<Rightarrow>
      idle s \<and> state_of r s = Fulfilled (VBool b) \<and> calls ''bipredicate'' s = [[x, v]])"
  by (cases src) (simp_all add: contains_defs rt_defs cong: let_weak_cong)

lemma contains_failed_tested:
  "fails src e \<Longrightarrow>
   (case contains_run src v (Some (UserFn ''bipredicate'' f)) u of (r, s) \<Rightarrow>
      idle s \<and> state_of r s = Rejected e \<and> calls ''bipredicate'' s = [])"
  by (cases src) (simp_all add: contains_defs rt_defs cong: let_weak_cong)

lemma contains_failed_strict:
  "fails src e \<Longrightarrow>
   (case contains_run src v None u of (r, s) \<Rightarrow> idle s \<and> state_of r s = Rejected e)"
  by (cases src) (simp_all add: contains_defs rt_defs cong: let_weak_cong)

text \<open>
  C5, as the claim states it, at \<^verbatim>\<open>NaN\<close>: \<^verbatim>\<open>Promise.resolve(NaN).contains(NaN)\<close> settles
  success with \<^verbatim>\<open>false\<close>, where the claim says that a source resolved with \<open>v\<close> yields
  \<^verbatim>\<open>true\<close> for every \<open>v\<close>.
\<close>

theorem contains_NaN_yields_false:
  "state_of (fst (contains_run (Resolved VNaN) VNaN None ()))
     (snd (contains_run (Resolved VNaN) VNaN None ())) = Fulfilled (VBool False)"
  by (simp add: contains_defs rt_defs cong: let_weak_cong)

text \<open>
  C5, amended. On a source that succeeds with \<open>x\<close>, \<^verbatim>\<open>contains(v, predicate)\<close> settles
  success with the boolean that \<^verbatim>\<open>predicate(x, v)\<close> returns, after exactly that one call,
  and \<^verbatim>\<open>contains(v)\<close> settles success with \<^verbatim>\<open>x === v\<close>: \<^verbatim>\<open>true\<close> on a source that succeeds
  with \<open>v\<close> itself unless \<open>v\<close> is \<^verbatim>\<open>NaN\<close>, \<^verbatim>\<open>false\<close> on one that succeeds with another
  value. On a source that fails with \<open>e\<close> the result fails with \<open>e\<close> and the predicate is
  not called.
\<close>

theorem contains_settles_with_test_result:
  "(succeeds src x \<longrightarrow>
      (case contains_run src v None u of (r, s) \<Rightarrow>
         idle s \<and> state_of r s = Fulfilled (VBool (strict_eq x v))))
   \<and> (succeeds src x \<and> f u [x, v] = (Return (VBool b), u') \<longrightarrow>
      (case contains_run src v (Some (UserFn ''bipredicate'' f)) u of (r, s) \<Rightarrow>
         idle s \<and> state_of r s = Fulfilled (VBool b) \<and> calls ''bipredicate'' s = [[x, v]]))
   \<and> (succeeds src v \<and> v \<noteq> VNaN \<longrightarrow>
      (case contains_run src v None u of (r, s) \<Rightarrow>
         idle s \<and> state_of r s = Fulfilled (VBool True)))
   \<and> (succeeds src x \<and> x \<noteq> v \<longrightarrow>
      (case contains_run src v None u of (r, s) \<Rightarrow>
         idle s \<and> state_of r s = Fulfilled (VBool False)))
   \<and> (fails src e \<longrightarrow>
      (case contains_run src v None u of (r, s) \<Rightarrow> idle s \<and> state_of r s = Rejected e)
      \<and> (case contains_run src v (Some (UserFn ''bipredicate'' f)) u of (r, s) \<Rightarrow>
           idle s \<and> state_of r s = Rejected e \<and> calls ''bipredicate'' s = []))"
proof -
  have strict: "succeeds src x \<longrightarrow>
      (case contains_run src v None u of (r, s) \<Rightarrow>
         idle s \<and> state_of r s = Fulfilled (VBool (strict_eq x v)))"
    by (simp add: contains_strict)
  have tested: "succeeds src x \<and> f u [x, v] = (Return (VBool b), u') \<longrightarrow>
      (case contains_run src v (Some (UserFn ''bipredicate'' f)) u of (r, s) \<Rightarrow>
         idle s \<and> state_of r s = Fulfilled (VBool b) \<and> calls ''bipredicate'' s = [[x, v]])"
    by (simp add: contains_tested)
  have same: "succeeds src v \<and> v \<noteq> VNaN \<longrightarrow>
      (case contains_run src v None u of (r, s) \<Rightarrow>
         idle s \<and> state_of r s = Fulfilled (VBool True))"
    using contains_strict [of src v v u] by (auto simp add: strict_eq_refl)
  have other: "succeeds src x \<and> x \<noteq> v \<longrightarrow>
      (case contains_run src v None u of (r, s) \<Rightarrow>
         idle s \<and> state_of r s = Fulfilled (VBool False))"
    using contains_strict [of src x v u] strict_eq_eq [of x v] by auto
  have failed: "fails src e \<longrightarrow>
      (case contains_run src v None u of (r, s) \<Rightarrow> idle s \<and> state_of r s = Rejected e)
      \<and> (case contains_run src v (Some (UserFn ''bipredicate'' f)) u of (r, s) \<Rightarrow>
           idle s \<and> state_of r s = Rejected e \<and> calls ''bipredicate'' s = [])"
    by (simp add: contains_failed_strict contains_failed_tested)
  from strict tested same other failed show ?thesis
    by - (intro conjI; assumption)
qed

theorem contains_settles_with_test_result_witness:
  "succeeds (ResolvesAfter 3 (VNum 50)) (VNum 50) \<and> VNum 50 \<noteq> VNaN
   \<and> (case contains_run (ResolvesAfter 3 (VNum 50)) (VNum 50) None () of (r, s) \<Rightarrow>
         idle s \<and> state_of r s = Fulfilled (VBool True))
   \<and> (case contains_run (ResolvesAfter 3 (VNum 50)) (VNum 50)
              (Some (UserFn ''bipredicate'' (\<lambda>u a. (Return (VBool False), u)))) () of (r, s) \<Rightarrow>
         idle s \<and> state_of r s = Fulfilled (VBool False)
         \<and> calls ''bipredicate'' s = [[VNum 50, VNum 50]])
   \<and> succeeds (Resolved (VNum 7)) (VNum 7) \<and> VNum 7 \<noteq> VNum 50
   \<and> (case contains_run (Resolved (VNum 7)) (VNum 50) None () of (r, s) \<Rightarrow>
         idle s \<and> state_of r s = Fulfilled (VBool False))
   \<and> fails (Failed (VStr ''no'')) (VStr ''no'')
   \<and> (case contains_run (Failed (VStr ''no'')) (VNum 50) None () of (r, s) \<Rightarrow>
         idle s \<and> state_of r s = Rejected (VStr ''no''))"
proof -
  have a: "case contains_run (ResolvesAfter 3 (VNum 50)) (VNum 50) None () of (r, s) \<Rightarrow>
         idle s \<and> state_of r s = Fulfilled (VBool True)"
    using contains_settles_with_test_result
            [THEN conjunct2, THEN conjunct2, THEN conjunct1,
             of "ResolvesAfter 3 (VNum 50)" "VNum 50" "()"]
    by simp
  have b: "case contains_run (ResolvesAfter 3 (VNum 50)) (VNum 50)
              (Some (UserFn ''bipredicate'' (\<lambda>u a. (Return (VBool False), u)))) () of (r, s) \<Rightarrow>
         idle s \<and> state_of r s = Fulfilled (VBool False)
         \<and> calls ''bipredicate'' s = [[VNum 50, VNum 50]]"
    using contains_settles_with_test_result
            [THEN conjunct2, THEN conjunct1,
             of "ResolvesAfter 3 (VNum 50)" "VNum 50" "\<lambda>u a. (Return (VBool False), u)" "()"
                "VNum 50" False "()"]
    by simp
  have c: "case contains_run (Resolved (VNum 7)) (VNum 50) None () of (r, s) \<Rightarrow>
         idle s \<and> state_of r s = Fulfilled (VBool False)"
    using contains_settles_with_test_result
            [THEN conjunct2, THEN conjunct2, THEN conjunct2, THEN conjunct1,
             of "Resolved (VNum 7)" "VNum 7" "VNum 50" "()"]
    by simp
  have d: "case contains_run (Failed (VStr ''no'')) (VNum 50) None () of (r, s) \<Rightarrow>
         idle s \<and> state_of r s = Rejected (VStr ''no'')"
    using contains_settles_with_test_result
            [THEN conjunct2, THEN conjunct2, THEN conjunct2, THEN conjunct2,
             of "Failed (VStr ''no'')" "VStr ''no''" "VNum 50" "()"]
    by simp
  from a b c d show ?thesis by simp
qed
section \<open>compare and equals\<close>

















section \<open>timeout\<close>












section \<open>finally\<close>

lemmas finally_defs = finally_gives_def finally_run_def Promise_finally_def





lemma finally_await_delayed:
  assumes "\<forall>q. g q u [] = (Return (VPromise q), u')"
    and "src = ResolvesAfter t x \<or> src = FailsAfter t x"
    and "other = ResolvesAfter t2 y \<or> other = FailsAfter t2 y"
    and "proper src" and "proper other"
  shows "finally_gives src other g u (awaited (outcome src) (outcome other))"
  using assms
  by (elim disjE; cases "timer_delay t2 < timer_delay t"; simp add: finally_defs rt_defs cong: let_weak_cong)

lemma finally_await:
  assumes "\<forall>q. g q u [] = (Return (VPromise q), u')" and "proper src" and "proper other"
  shows "finally_gives src other g u (awaited (outcome src) (outcome other))"
  using assms
  apply (cases src; cases other)
  apply (simp_all add: finally_await_delayed)
  apply (simp_all add: finally_defs rt_defs cong: let_weak_cong)
  done





text \<open>
  The finalizer that returns a promise which never settles: the promise returned by
  \<^verbatim>\<open>finally\<close> never settles either.
\<close>

lemma finally_waits_for_the_finalizer:
  "proper src \<Longrightarrow> \<forall>q. g q u [] = (Return (VPromise q), u') \<Longrightarrow>
   (case finally_run src Unsettled g u of (r, s) \<Rightarrow> idle s \<and> state_of r s = Pending)"
  using finally_await [where g = g and u = u and u' = u' and src = src and other = Unsettled]
  by (cases "outcome src") (auto simp add: finally_gives_def)

section \<open>retry\<close>

lemmas retry_defs = retry_run_def DeferredPromise_retry_def resub_always_def resub_test_def



lemma user_set_var [simp]: "user (set_var i v s) = user s"
  by (simp add: set_var_def)

lemma fst_call_fn [simp]: "fst (call_fn (UserFn name g) args s) = fst (g (user s) args)"
  by (simp add: Let_def)

lemma retry_fails_twice_then_succeeds:
  assumes "f u = (failing w1 e1, u1)" and "f u1 = (failing w2 e2, u2)"
    and "f u2 = (succeeding w3 v, u3)" and "\<not> thenable v"
  shows "case retry_run (SupUser ''producer'' f) None 16 u of (r, s) \<Rightarrow>
           idle s \<and> state_of r s = Fulfilled v \<and> calls ''producer'' s = [[], [], []]"
  using assms
  by (cases w1; cases w2; cases w3) (simp_all add: retry_defs rt_defs cong: let_weak_cong)

lemma retry_always_handler:
  "calls ''producer'' (snd (call_handler (RetryAlways (SupUser ''producer'' f)) x s))
     = calls ''producer'' s @ [[]]
   \<and> returns (fst (call_handler (RetryAlways (SupUser ''producer'' f)) x s))"
  by (simp add: resub_always_def Let_def calls_new_Promise_user)







subsection \<open>No promise of the chain fails\<close>

lemma okpair_mono: "okpair G n f r d \<Longrightarrow> n \<le> m \<Longrightarrow> okpair G m f r d"
  by (auto simp add: okpair_def)
lemma okjob_mono: "okjob G n j \<Longrightarrow> n \<le> m \<Longrightarrow> okjob G m j"
  by (cases j) (auto intro: okpair_mono)
lemma okwait_mono: "okwait G n w \<Longrightarrow> n \<le> m \<Longrightarrow> okwait G m w"
  by (cases w) (auto intro: okpair_mono)
lemma oktimer_mono: "oktimer G n cb \<Longrightarrow> n \<le> m \<Longrightarrow> oktimer G m cb"
  by (cases cb) auto

lemma okpair_grow: "okpair G n f r d \<Longrightarrow> n \<le> g \<Longrightarrow> okpair (insert g G) n f r d"
  by (auto simp add: okpair_def)
lemma okjob_grow: "okjob G n j \<Longrightarrow> n \<le> g \<Longrightarrow> (\<forall>d\<in>G. d < n) \<Longrightarrow> okjob (insert g G) n j"
  by (cases j) (auto simp add: okpair_def)
lemma okwait_grow: "okwait G n w \<Longrightarrow> n \<le> g \<Longrightarrow> okwait (insert g G) n w"
  by (cases w) (auto simp add: okpair_def)
lemma oktimer_grow: "oktimer G n cb \<Longrightarrow> n \<le> g \<Longrightarrow> oktimer (insert g G) n cb"
  by (cases cb) auto

lemma guarded_alloc: "guarded G s \<Longrightarrow> guarded G (snd (alloc s))"
  unfolding guarded_def alloc_def
  by (auto simp add: empty_cell_def intro: okjob_mono okwait_mono oktimer_mono)

lemma guarded_bound: "guarded G s \<Longrightarrow> d \<in> G \<Longrightarrow> d < fresh s"
  by (simp add: guarded_def)

lemma guarded_fresh_notin: "guarded G s \<Longrightarrow> fresh s \<notin> G"
  by (auto simp add: guarded_def)

lemma guarded_jobs_tl: "guarded G s \<Longrightarrow> guarded G (s\<lparr>jobs := tl (jobs s)\<rparr>)"
  by (cases "jobs s") (auto simp add: guarded_def)

lemma guarded_bump: "guarded G s \<Longrightarrow> guarded G (s\<lparr>fresh := Suc (fresh s)\<rparr>)"
  unfolding guarded_def
  by (auto intro: okjob_mono okwait_mono oktimer_mono)

lemma guarded_user: "guarded G (s\<lparr>user := u, trace := t\<rparr>) = guarded G s"
  by (simp add: guarded_def)

lemma set_settle_jobs:
  "set [ReactionJob f r d st. (q, f, r, d) \<leftarrow> ws, q = p]
   = {ReactionJob f r d st | f r d. (p, f, r, d) \<in> set ws}"
  by (induction ws) auto

lemma guarded_settle:
  "guarded G s \<Longrightarrow> plain st \<Longrightarrow> (failed st \<longrightarrow> p \<notin> G) \<Longrightarrow> guarded G (settle p st s)"
  unfolding guarded_def settle_def
  by (auto simp add: set_settle_jobs)

lemma guarded_promise_resolve_free:
  "guarded G s \<Longrightarrow> p \<notin> G \<Longrightarrow> p < fresh s \<Longrightarrow> guarded G (promise_resolve p v s)"
proof (cases "thenable v")
  case False
  assume "guarded G s" "p \<notin> G" "p < fresh s"
  with False show ?thesis by (simp add: promise_resolve_plain guarded_settle)
next
  case True
  assume g: "guarded G s" and p: "p \<notin> G" "p < fresh s"
  from True obtain q where v: "v = VPromise q" by (cases v) auto
  show ?thesis
  proof (cases "q = p")
    case True
    with v g p show ?thesis
      by (simp add: promise_resolve_promise guarded_settle guarded_bump)
  next
    case False
    with v g p show ?thesis
      by (auto simp add: promise_resolve_promise guarded_def)
  qed
qed

lemma guarded_promise_resolve_plain:
  "guarded G s \<Longrightarrow> \<not> thenable v \<Longrightarrow> guarded G (promise_resolve p v s)"
  by (simp add: promise_resolve_plain guarded_settle)

lemma guarded_promise_resolve_chain:
  "guarded G s \<Longrightarrow> p \<in> G \<Longrightarrow> q \<in> G \<Longrightarrow> q \<noteq> p \<Longrightarrow> guarded G (promise_resolve p (VPromise q) s)"
  by (auto simp add: promise_resolve_promise guarded_def)

lemma guarded_lock: "guarded G (s\<lparr>heap := (heap s)(p := (heap s p)\<lparr>locked := True\<rparr>)\<rparr>) = guarded G s"
  by (auto simp add: guarded_def)

lemma guarded_resolve_fn_free:
  "guarded G s \<Longrightarrow> p \<notin> G \<Longrightarrow> p < fresh s \<Longrightarrow> guarded G (resolve_fn p v s)"
  by (simp add: resolve_fn_def guarded_promise_resolve_free guarded_lock)

lemma guarded_resolve_fn_plain:
  "guarded G s \<Longrightarrow> \<not> thenable v \<Longrightarrow> guarded G (resolve_fn p v s)"
  by (simp add: resolve_fn_def guarded_promise_resolve_plain guarded_lock)

lemma guarded_resolve_fn_chain:
  "guarded G s \<Longrightarrow> p \<in> G \<Longrightarrow> q \<in> G \<Longrightarrow> q \<noteq> p \<Longrightarrow> guarded G (resolve_fn p (VPromise q) s)"
  by (simp add: resolve_fn_def guarded_promise_resolve_chain guarded_lock)

lemma guarded_reject_fn:
  "guarded G s \<Longrightarrow> p \<notin> G \<Longrightarrow> guarded G (reject_fn p v s)"
  by (simp add: reject_fn_def guarded_settle guarded_lock)

lemma guarded_setTimeout:
  "guarded G s \<Longrightarrow> oktimer G (fresh s) cb \<Longrightarrow> guarded G (setTimeout cb t s)"
  by (auto simp add: guarded_def setTimeout_def)

lemma guarded_exec_actions:
  "guarded G s \<Longrightarrow> p \<notin> G \<Longrightarrow> p < fresh s \<Longrightarrow> guarded G (exec_actions acts p s)"
proof (induction acts p s rule: exec_actions.induct)
  case (2 v as p s)
  then show ?case
    using fresh_resolve_fn [of s p v] by (simp add: guarded_resolve_fn_free)
qed (simp_all add: guarded_reject_fn guarded_setTimeout)

lemma guarded_run_supplier:
  "guarded G s \<Longrightarrow> p \<notin> G \<Longrightarrow> p < fresh s \<Longrightarrow> guarded G (run_supplier sp p s)"
  by (cases sp)
     (simp_all add: guarded_resolve_fn_free guarded_reject_fn guarded_setTimeout
        guarded_exec_actions guarded_user Let_def)

lemma guarded_new_Promise: "guarded G s \<Longrightarrow> guarded G (snd (new_Promise sp s))"
  using guarded_run_supplier [of G "snd (alloc s)" "fresh s" sp]
  by (simp add: new_Promise_def Let_def guarded_alloc guarded_fresh_notin) (simp add: alloc_def)

lemma guarded_alloc_grow:
  assumes "guarded G s"
  shows "guarded (insert (fresh s) G) (snd (alloc s))"
proof -
  from assms have b: "\<forall>d\<in>G. d < fresh s" by (simp add: guarded_def)
  have 1: "\<forall>d\<in>insert (fresh s) G. d < fresh (snd (alloc s))
             \<and> \<not> failed (pstate (heap (snd (alloc s)) d))"
    using assms by (auto simp add: guarded_def alloc_def empty_cell_def)
  have 2: "\<forall>p. plain (pstate (heap (snd (alloc s)) p))"
    using assms by (auto simp add: guarded_def alloc_def empty_cell_def)
  have 3: "\<forall>w\<in>set (waiting (snd (alloc s))). okwait (insert (fresh s) G) (fresh (snd (alloc s))) w"
  proof
    fix w assume "w \<in> set (waiting (snd (alloc s)))"
    with assms have "okwait G (fresh s) w" by (simp add: guarded_def alloc_def)
    then have "okwait (insert (fresh s) G) (fresh s) w" by (rule okwait_grow) simp
    then show "okwait (insert (fresh s) G) (fresh (snd (alloc s))) w"
      by (rule okwait_mono) (simp add: alloc_def)
  qed
  have 4: "\<forall>j\<in>set (jobs (snd (alloc s))). okjob (insert (fresh s) G) (fresh (snd (alloc s))) j"
  proof
    fix j assume "j \<in> set (jobs (snd (alloc s)))"
    with assms have "okjob G (fresh s) j" by (simp add: guarded_def alloc_def)
    then have "okjob (insert (fresh s) G) (fresh s) j" by (rule okjob_grow [OF _ le_refl b])
    then show "okjob (insert (fresh s) G) (fresh (snd (alloc s))) j"
      by (rule okjob_mono) (simp add: alloc_def)
  qed
  have 5: "\<forall>t\<in>set (timers (snd (alloc s))).
             oktimer (insert (fresh s) G) (fresh (snd (alloc s))) (snd t)"
  proof
    fix t assume "t \<in> set (timers (snd (alloc s)))"
    with assms have "oktimer G (fresh s) (snd t)" by (simp add: guarded_def alloc_def)
    then have "oktimer (insert (fresh s) G) (fresh s) (snd t)" by (rule oktimer_grow) simp
    then show "oktimer (insert (fresh s) G) (fresh (snd (alloc s))) (snd t)"
      by (rule oktimer_mono) (simp add: alloc_def)
  qed
  from 1 2 3 4 5 show ?thesis unfolding guarded_def by blast
qed

lemma guarded_add_wait:
  "guarded G s \<Longrightarrow> okwait G (fresh s) w \<Longrightarrow> guarded G (s\<lparr>waiting := waiting s @ [w]\<rparr>)"
  by (auto simp add: guarded_def)

lemma guarded_add_job:
  "guarded G s \<Longrightarrow> okjob G (fresh s) j \<Longrightarrow> guarded G (s\<lparr>jobs := jobs s @ [j]\<rparr>)"
  by (auto simp add: guarded_def)

lemma guarded_plain: "guarded G s \<Longrightarrow> plain (pstate (heap s p))"
  by (simp add: guarded_def)

lemma guarded_not_failed: "guarded G s \<Longrightarrow> d \<in> G \<Longrightarrow> \<not> failed (pstate (heap s d))"
  by (simp add: guarded_def)

lemma Promise_then_alloc:
  "Promise_then p onF onR s =
     (fresh s,
      case pstate (heap (snd (alloc s)) p) of
        Pending \<Rightarrow> (snd (alloc s))\<lparr>waiting := waiting (snd (alloc s)) @ [(p, onF, onR, fresh s)]\<rparr>
      | Fulfilled v \<Rightarrow>
          (snd (alloc s))\<lparr>jobs := jobs (snd (alloc s)) @ [ReactionJob onF onR (fresh s) (Fulfilled v)]\<rparr>
      | Rejected v \<Rightarrow>
          (snd (alloc s))\<lparr>jobs := jobs (snd (alloc s)) @ [ReactionJob onF onR (fresh s) (Rejected v)]\<rparr>)"
  by (simp add: Promise_then_def Let_def alloc_def cong: pstate.case_cong)

lemma fresh_alloc [simp]: "fresh (snd (alloc s)) = Suc (fresh s)"
  by (simp add: alloc_def)

lemma guarded_then_retry:
  assumes "guarded G s"
  shows "guarded (insert (fresh s) G) (snd (Promise_then p Ident (RetryAlways sp) s))"
proof -
  let ?s1 = "snd (alloc s)" and ?G = "insert (fresh s) G"
  have g: "guarded ?G ?s1" using assms by (rule guarded_alloc_grow)
  have pl: "plain (pstate (heap ?s1 p))" using g by (rule guarded_plain)
  show ?thesis
  proof (cases "pstate (heap ?s1 p)")
    case Pending
    have "okwait ?G (fresh ?s1) (p, Ident, RetryAlways sp, fresh s)"
      by (simp add: okpair_def)
    with g have "guarded ?G (?s1\<lparr>waiting := waiting ?s1 @ [(p, Ident, RetryAlways sp, fresh s)]\<rparr>)"
      by (rule guarded_add_wait)
    with Pending show ?thesis by (simp add: Promise_then_alloc)
  next
    case (Fulfilled v)
    with pl have "okjob ?G (fresh ?s1) (ReactionJob Ident (RetryAlways sp) (fresh s) (Fulfilled v))"
      by (simp add: okpair_def)
    with g have "guarded ?G
        (?s1\<lparr>jobs := jobs ?s1 @ [ReactionJob Ident (RetryAlways sp) (fresh s) (Fulfilled v)]\<rparr>)"
      by (rule guarded_add_job)
    with Fulfilled show ?thesis by (simp add: Promise_then_alloc)
  next
    case (Rejected v)
    have "okjob ?G (fresh ?s1) (ReactionJob Ident (RetryAlways sp) (fresh s) (Rejected v))"
      by (simp add: okpair_def)
    with g have "guarded ?G
        (?s1\<lparr>jobs := jobs ?s1 @ [ReactionJob Ident (RetryAlways sp) (fresh s) (Rejected v)]\<rparr>)"
      by (rule guarded_add_job)
    with Rejected show ?thesis by (simp add: Promise_then_alloc)
  qed
qed

lemma guarded_then_adopt:
  assumes "guarded G s" and "t < fresh s" and "t \<in> G \<longrightarrow> q \<in> G"
  shows "guarded G (snd (Promise_then q (ThenableResolve t) (ThenableReject t) s))"
proof -
  let ?s1 = "snd (alloc s)"
  have g: "guarded G ?s1" using assms(1) by (rule guarded_alloc)
  have pl: "plain (pstate (heap ?s1 q))" using g by (rule guarded_plain)
  have nf: "fresh s \<notin> G" using assms(1) by (rule guarded_fresh_notin)
  have pair: "okpair G (fresh ?s1) (ThenableResolve t) (ThenableReject t) (fresh s)"
    using assms(2) nf by (auto simp add: okpair_def)
  show ?thesis
  proof (cases "pstate (heap ?s1 q)")
    case Pending
    have "okwait G (fresh ?s1) (q, ThenableResolve t, ThenableReject t, fresh s)"
      using pair assms(3) by simp
    with g have "guarded G
        (?s1\<lparr>waiting := waiting ?s1 @ [(q, ThenableResolve t, ThenableReject t, fresh s)]\<rparr>)"
      by (rule guarded_add_wait)
    with Pending show ?thesis by (simp add: Promise_then_alloc)
  next
    case (Fulfilled v)
    with pl pair have "okjob G (fresh ?s1)
        (ReactionJob (ThenableResolve t) (ThenableReject t) (fresh s) (Fulfilled v))"
      by simp
    with g have "guarded G (?s1\<lparr>jobs := jobs ?s1 @
        [ReactionJob (ThenableResolve t) (ThenableReject t) (fresh s) (Fulfilled v)]\<rparr>)"
      by (rule guarded_add_job)
    with Fulfilled show ?thesis by (simp add: Promise_then_alloc)
  next
    case (Rejected v)
    have "t \<notin> G"
    proof
      assume "t \<in> G"
      with assms(3) have "q \<in> G" by simp
      with g have "\<not> failed (pstate (heap ?s1 q))" by (rule guarded_not_failed)
      with Rejected show False by simp
    qed
    with pair have "okjob G (fresh ?s1)
        (ReactionJob (ThenableResolve t) (ThenableReject t) (fresh s) (Rejected v))"
      by auto
    with g have "guarded G (?s1\<lparr>jobs := jobs ?s1 @
        [ReactionJob (ThenableResolve t) (ThenableReject t) (fresh s) (Rejected v)]\<rparr>)"
      by (rule guarded_add_job)
    with Rejected show ?thesis by (simp add: Promise_then_alloc)
  qed
qed

lemma guarded_resub_always:
  assumes "guarded G s"
  shows "guarded (insert (fst (resub_always sp s)) G) (snd (resub_always sp s))
         \<and> fst (resub_always sp s) \<notin> G \<and> fresh s < fst (resub_always sp s)"
proof -
  let ?s1 = "snd (new_Promise sp s)"
  have g: "guarded G ?s1" using assms by (rule guarded_new_Promise)
  have f: "fst (resub_always sp s) = fresh ?s1"
    by (simp add: resub_always_def Let_def Promise_then_alloc)
  have s: "snd (resub_always sp s) = snd (Promise_then (fresh s) Ident (RetryAlways sp) ?s1)"
    by (simp add: resub_always_def Let_def)
  from g have "guarded (insert (fresh ?s1) G) (snd (Promise_then (fresh s) Ident (RetryAlways sp) ?s1))"
    by (rule guarded_then_retry)
  moreover from g have "fresh ?s1 \<notin> G" by (rule guarded_fresh_notin)
  moreover have "fresh s < fresh ?s1" by (rule fresh_new_Promise)
  ultimately show ?thesis by (simp add: f s)
qed

lemma guarded_run_job:
  assumes g: "guarded G s" and j: "okjob G (fresh s) j"
  shows "\<exists>G'. G \<subseteq> G' \<and> guarded G' (run_job j s)"
proof (cases j)
  case (ThenableJob t q)
  with j have "t < fresh s" "t \<in> G \<longrightarrow> q \<in> G" by simp_all
  with g have "guarded G (snd (Promise_then q (ThenableResolve t) (ThenableReject t) s))"
    by (rule guarded_then_adopt)
  with ThenableJob show ?thesis by auto
next
  case (ReactionJob f r d st)
  with j have pair: "okpair G (fresh s) f r d" and pl: "plain st"
    and nf: "\<forall>t\<in>G. r = ThenableReject t \<longrightarrow> \<not> failed st"
    by simp_all
  from pair consider
      (retry) sp where "f = Ident" "r = RetryAlways sp" "d \<in> G"
    | (adopt) t where "f = ThenableResolve t" "r = ThenableReject t" "t < fresh s" "d \<notin> G"
        "d < fresh s"
    by (auto simp add: okpair_def)
  then show ?thesis
  proof cases
    case retry
    show ?thesis
    proof (cases st)
      case Pending
      with ReactionJob g show ?thesis by auto
    next
      case (Fulfilled v)
      with pl have "\<not> thenable v" by simp
      with g have "guarded G (resolve_fn d v s)" by (rule guarded_resolve_fn_plain)
      with ReactionJob retry Fulfilled show ?thesis by auto
    next
      case (Rejected e)
      let ?again = "resub_always sp s"
      from g have a: "guarded (insert (fst ?again) G) (snd ?again)"
        and b: "fst ?again \<notin> G"
        using guarded_resub_always [of G s sp] by simp_all
      from b retry have "fst ?again \<noteq> d" by auto
      with a retry have "guarded (insert (fst ?again) G)
          (resolve_fn d (VPromise (fst ?again)) (snd ?again))"
        by (intro guarded_resolve_fn_chain) auto
      with ReactionJob retry Rejected show ?thesis
        by (auto simp add: Let_def intro!: exI [of _ "insert (fst ?again) G"])
    qed
  next
    case adopt
    show ?thesis
    proof (cases st)
      case Pending
      with ReactionJob g show ?thesis by auto
    next
      case (Fulfilled v)
      with pl have "\<not> thenable v" by simp
      with g have "guarded G (promise_resolve t v s)" by (rule guarded_promise_resolve_plain)
      then have "guarded G (resolve_fn d VUndefined (promise_resolve t v s))"
        by (rule guarded_resolve_fn_plain) simp
      with ReactionJob adopt Fulfilled show ?thesis by auto
    next
      case (Rejected e)
      with nf adopt have "t \<notin> G" by auto
      with g have "guarded G (settle t (Rejected e) s)" by (intro guarded_settle) simp_all
      then have "guarded G (resolve_fn d VUndefined (settle t (Rejected e) s))"
        by (rule guarded_resolve_fn_plain) simp
      with ReactionJob adopt Rejected show ?thesis by auto
    qed
  qed
qed

lemma guarded_fire:
  assumes "guarded G s" and "oktimer G (fresh s) cb"
  shows "guarded G (fire cb s)"
proof (cases cb)
  case (TimerSettle b p v)
  with assms show ?thesis
    by (cases b) (simp_all add: guarded_resolve_fn_free guarded_reject_fn)
next
  case (TimeoutCheck success this r)
  with assms have r: "r < fresh s" "r \<notin> G" by simp_all
  from assms(1) have "guarded G (s\<lparr>fresh := Suc (fresh s)\<rparr>)" by (rule guarded_bump)
  with r have "guarded G (reject_fn r (VError (fresh s) ''Error'' ''Promise TimeoutException'')
      (s\<lparr>fresh := Suc (fresh s)\<rparr>))"
    by (intro guarded_reject_fn) simp_all
  with TimeoutCheck assms(1) r show ?thesis
    by (simp add: guarded_resolve_fn_free)
qed

lemma take_timer_set:
  "take_timer ts = Some (x, rest) \<Longrightarrow> x \<in> set ts \<and> set rest \<subseteq> set ts"
proof (induction ts arbitrary: x rest)
  case Nil
  then show ?case by simp
next
  case (Cons t ts)
  show ?case
  proof (cases "take_timer ts")
    case None
    with Cons.prems show ?thesis by auto
  next
    case (Some later)
    obtain y more where later: "later = (y, more)" by (cases later)
    with Some Cons.IH [of y more] have "y \<in> set ts" "set more \<subseteq> set ts" by simp_all
    with Cons.prems Some later show ?thesis by (auto split: if_splits)
  qed
qed

lemma guarded_timers:
  "guarded G s \<Longrightarrow> set rest \<subseteq> set (timers s) \<Longrightarrow> guarded G (s\<lparr>timers := rest, clock := c\<rparr>)"
  by (auto simp add: guarded_def)

lemma guarded_step:
  assumes g: "guarded G s" and st: "step s = Some s'"
  shows "\<exists>G'. G \<subseteq> G' \<and> guarded G' s'"
proof (cases "jobs s = []")
  case False
  then have "hd (jobs s) \<in> set (jobs s)" by simp
  with g have "okjob G (fresh s) (hd (jobs s))" by (simp add: guarded_def)
  then have "okjob G (fresh (s\<lparr>jobs := tl (jobs s)\<rparr>)) (hd (jobs s))" by simp
  with guarded_jobs_tl [OF g]
  have "\<exists>G'. G \<subseteq> G' \<and> guarded G' (run_job (hd (jobs s)) (s\<lparr>jobs := tl (jobs s)\<rparr>))"
    by (rule guarded_run_job)
  with False st show ?thesis by (simp add: step_def)
next
  case True
  with st obtain x rest where tt: "take_timer (timers s) = Some (x, rest)"
    and s': "s' = fire (snd x) (s\<lparr>timers := rest, clock := max (clock s) (fst x)\<rparr>)"
    by (auto simp add: step_def split: option.splits)
  from take_timer_set [OF tt] have x: "x \<in> set (timers s)" and rest: "set rest \<subseteq> set (timers s)"
    by simp_all
  from g rest have g1: "guarded G (s\<lparr>timers := rest, clock := max (clock s) (fst x)\<rparr>)"
    by (rule guarded_timers)
  from g x have "oktimer G (fresh s) (snd x)" by (simp add: guarded_def)
  then have "oktimer G (fresh (s\<lparr>timers := rest, clock := max (clock s) (fst x)\<rparr>)) (snd x)"
    by simp
  with g1 have "guarded G s'" unfolding s' by (rule guarded_fire)
  then show ?thesis by auto
qed

lemma guarded_run: "guarded G s \<Longrightarrow> \<exists>G'. G \<subseteq> G' \<and> guarded G' (run n s)"
proof (induction n arbitrary: G s)
  case 0
  then show ?case by auto
next
  case (Suc n)
  show ?case
  proof (cases "step s")
    case None
    with Suc.prems show ?thesis by auto
  next
    case (Some s1)
    with Suc.prems obtain G1 where "G \<subseteq> G1" "guarded G1 s1"
      using guarded_step by blast
    with Suc.IH [of G1 s1] Some show ?thesis by auto
  qed
qed

lemma guarded_init: "guarded {} (init u)"
  by (simp add: guarded_def init_def empty_cell_def)

lemma retry_never_fails:
  "\<not> failed (state_of (fst (retry_run sp None n u)) (snd (retry_run sp None n u)))"
proof -
  let ?made = "resub_always sp (init u)"
  have "guarded (insert (fst ?made) {}) (snd ?made)"
    using guarded_resub_always [OF guarded_init, of sp u] by simp
  then obtain G' where "insert (fst ?made) {} \<subseteq> G'" "guarded G' (run n (snd ?made))"
    using guarded_run by blast
  then have "\<not> failed (pstate (heap (run n (snd ?made)) (fst ?made)))"
    by (auto simp add: guarded_def)
  then show ?thesis
    by (simp add: retry_run_def DeferredPromise_retry_def Let_def state_of_def)
qed

text \<open>
  C3. A producer that fails on its first two runs and succeeds with \<open>v\<close> on the third,
  each at once or through a timer: \<^verbatim>\<open>retry()\<close> returns a promise that is fulfilled with
  \<open>v\<close>, and the producer has run exactly three times when the event loop ends. In every
  state the failure continuation \<^verbatim>\<open>() => resub()\<close> runs the producer once more and returns.
  For every producer and after any number of turns of the event loop, the promise that
  \<^verbatim>\<open>retry()\<close> returned has not failed.
\<close>

theorem retry_without_tester_retries_until_success:
  "(f u = (failing w1 e1, u1) \<and> f u1 = (failing w2 e2, u2) \<and> f u2 = (succeeding w3 v, u3)
      \<and> \<not> thenable v \<longrightarrow>
      (case retry_run (SupUser ''producer'' f) None 16 u of (r, s) \<Rightarrow>
         idle s \<and> state_of r s = Fulfilled v \<and> calls ''producer'' s = [[], [], []]))
   \<and> (calls ''producer'' (snd (call_handler (RetryAlways (SupUser ''producer'' f)) x st))
         = calls ''producer'' st @ [[]]
       \<and> returns (fst (call_handler (RetryAlways (SupUser ''producer'' f)) x st)))
   \<and> \<not> failed (state_of (fst (retry_run sp None n u)) (snd (retry_run sp None n u)))"
proof -
  have a: "f u = (failing w1 e1, u1) \<and> f u1 = (failing w2 e2, u2)
      \<and> f u2 = (succeeding w3 v, u3) \<and> \<not> thenable v \<longrightarrow>
      (case retry_run (SupUser ''producer'' f) None 16 u of (r, s) \<Rightarrow>
         idle s \<and> state_of r s = Fulfilled v \<and> calls ''producer'' s = [[], [], []])"
    using retry_fails_twice_then_succeeds [of f u w1 e1 u1 w2 e2 u2 w3 v u3] by simp
  show ?thesis
    by (rule conjI [OF a conjI [OF retry_always_handler retry_never_fails]])
qed

theorem retry_without_tester_retries_until_success_witness:
  "\<not> thenable (VStr ''done'')
   \<and> (case retry_run (SupUser ''producer''
              (\<lambda>k. (if k < 2 then [CallRej (VNum (int k))] else [CallRes (VStr ''done'')], Suc k)))
            None 16 (0::nat) of
        (r, s) \<Rightarrow> idle s \<and> state_of r s = Fulfilled (VStr ''done'')
                  \<and> calls ''producer'' s = [[], [], []])"
  using retry_without_tester_retries_until_success
          [THEN conjunct1,
           of "\<lambda>k. (if k < 2 then [CallRej (VNum (int k))] else [CallRes (VStr ''done'')], Suc k)"
              "0::nat" Now "VNum 0" 1 Now "VNum 1" 2 Now "VStr ''done''" 3]
  by simp



section \<open>PublishedPromise\<close>

subsection \<open>A sealed promise ignores its resolving functions\<close>

lemma sealed_alloc [simp]: "sealed p s \<Longrightarrow> sealed p (snd (alloc s))"
  by (simp add: sealed_def alloc_def)
lemma sealed_new_var [simp]: "sealed p s \<Longrightarrow> sealed p (snd (new_var v s))"
  by (simp add: sealed_def new_var_def)
lemma sealed_set_var [simp]: "sealed p s \<Longrightarrow> sealed p (set_var i v s)"
  by (simp add: sealed_def set_var_def)
lemma sealed_settle [simp]: "sealed p s \<Longrightarrow> sealed p (settle q st s)"
  by (auto simp add: sealed_def settle_def)
lemma sealed_promise_resolve [simp]: "sealed p s \<Longrightarrow> sealed p (promise_resolve q v s)"
  by (cases v) (auto simp add: promise_resolve_def sealed_def settle_def)
lemma sealed_resolve_fn [simp]: "sealed p s \<Longrightarrow> sealed p (resolve_fn q v s)"
  unfolding resolve_fn_def by (auto intro!: sealed_promise_resolve) (simp add: sealed_def)
lemma sealed_reject_fn [simp]: "sealed p s \<Longrightarrow> sealed p (reject_fn q v s)"
  unfolding reject_fn_def by (auto intro!: sealed_settle) (simp add: sealed_def)
lemma sealed_setTimeout [simp]: "sealed p s \<Longrightarrow> sealed p (setTimeout cb t s)"
  by (simp add: sealed_def setTimeout_def)
lemma sealed_then [simp]: "sealed p s \<Longrightarrow> sealed p (snd (Promise_then q f r s))"
  by (simp add: Promise_then_def Let_def sealed_def alloc_def split: pstate.splits)
lemma sealed_exec_actions [simp]: "sealed p s \<Longrightarrow> sealed p (exec_actions acts q s)"
  by (induction acts q s rule: exec_actions.induct) simp_all
lemma sealed_user [simp]: "sealed p (s\<lparr>user := u, trace := t\<rparr>) = sealed p s"
  by (simp add: sealed_def)
lemma sealed_run_supplier [simp]: "sealed p s \<Longrightarrow> sealed p (run_supplier sp q s)"
  by (cases sp) (simp_all add: Let_def)
lemma sealed_new_Promise [simp]: "sealed p s \<Longrightarrow> sealed p (snd (new_Promise sp s))"
  by (simp add: new_Promise_def Let_def)
lemma sealed_Promise_resolve [simp]: "sealed p s \<Longrightarrow> sealed p (snd (Promise_resolve x s))"
  by (cases x) (simp_all add: Promise_resolve_def)
lemma sealed_Promise_reject [simp]: "sealed p s \<Longrightarrow> sealed p (snd (Promise_reject x s))"
  by (simp add: Promise_reject_def)
lemma sealed_call_fn [simp]: "sealed p s \<Longrightarrow> sealed p (snd (call_fn f args s))"
  by (cases f) (simp_all add: Let_def)
lemma sealed_fresh [simp]: "sealed p (s\<lparr>fresh := Suc (fresh s)\<rparr>) = (sealed p s \<or> (p = fresh s \<and> locked (heap s p)))"
  by (auto simp add: sealed_def)
lemma sealed_resub_always [simp]: "sealed p s \<Longrightarrow> sealed p (snd (resub_always sp s))"
  by (simp add: resub_always_def Let_def)
lemma sealed_resub_test [simp]: "sealed p s \<Longrightarrow> sealed p (snd (resub_test sp t f s))"
  by (simp add: resub_test_def Let_def)
lemma sealed_call_handler [simp]: "sealed p s \<Longrightarrow> sealed p (snd (call_handler h x s))"
  by (cases h) (simp_all add: Let_def split: completion.splits)
lemma sealed_finish [simp]: "sealed p s \<Longrightarrow> sealed p (finish d c s)"
  by (cases c) simp_all
lemma sealed_jobs [simp]: "sealed p (s\<lparr>jobs := js\<rparr>) = sealed p s"
  by (simp add: sealed_def)
lemma sealed_timers [simp]: "sealed p (s\<lparr>timers := ts, clock := c\<rparr>) = sealed p s"
  by (simp add: sealed_def)
lemma sealed_run_job [simp]: "sealed p s \<Longrightarrow> sealed p (run_job j s)"
  by (induction j s rule: run_job.induct) (simp_all add: Let_def)
lemma sealed_fire [simp]: "sealed p s \<Longrightarrow> sealed p (fire cb s)"
  by (induction cb s rule: fire.induct) simp_all
lemma sealed_step: "sealed p s \<Longrightarrow> step s = Some s1 \<Longrightarrow> sealed p s1"
  by (auto simp add: step_def split: if_splits option.splits)
lemma sealed_run: "sealed p s \<Longrightarrow> sealed p (run n s)"
  by (induction n arbitrary: s) (auto split: option.splits dest: sealed_step)

lemma sealed_noop: "sealed p s \<Longrightarrow> resolve_fn p w s = s \<and> reject_fn p w s = s"
  by (simp add: sealed_def resolve_fn_def reject_fn_def)

lemma do_calls_sealed: "sealed (promise p) s \<Longrightarrow> do_calls p cs s = run (turns cs) s"
proof (induction cs arbitrary: s)
  case Nil show ?case by simp
next
  case (Cons c cs)
  show ?case
  proof (cases c)
    case (CallResolve v)
    with Cons show ?thesis by (simp add: PublishedPromise_resolve_def sealed_noop)
  next
    case (CallReject v)
    with Cons show ?thesis by (simp add: PublishedPromise_reject_def sealed_noop)
  next
    case (Turns n)
    with Cons show ?thesis by (simp add: sealed_run run_add)
  qed
qed


lemma run_idle: "idle s \<Longrightarrow> run n s = s"
  by (cases n) (simp_all add: idle_def step_def)

lemma turns_append: "turns (cs @ ds) = turns cs + turns ds"
  by (induction cs rule: turns.induct) simp_all

lemma later_calls_are_ignored:
  assumes "sealed (promise p) s" and "idle (run k s)"
  shows "do_calls p (cs @ [Turns k]) s = run k s"
proof -
  have "do_calls p (cs @ [Turns k]) s = run (k + turns cs) s"
    using assms(1) by (simp add: do_calls_sealed turns_append add.commute)
  also have "\<dots> = run (turns cs) (run k s)" by (rule run_add)
  also have "\<dots> = run k s" using assms(2) by (rule run_idle)
  finally show ?thesis .
qed

lemmas publish_defs = publish_run_def Promise_publish_def new_PublishedPromise_def
  PublishedPromise_then_def PublishedPromise_resolve_def PublishedPromise_reject_def
  observer_def producer_def sealed_def

lemma publish_resolve_delivers_once:
  assumes "\<not> thenable v"
  shows "case publish_run None (CallResolve v # cs @ [Turns 2]) (init u) of (p, s) \<Rightarrow>
           idle s \<and> calls ''onResolve'' s = [[v]] \<and> calls ''onReject'' s = []
           \<and> state_of (promise p) s = Fulfilled v
           \<and> settlements (promise p) s = [(Fulfilled v, 0)]"
proof -
  let ?p = "fst (Promise_publish None (init u))"
  let ?s1 = "PublishedPromise_resolve ?p v
      (snd (PublishedPromise_then ?p (observer ''onResolve'') (observer ''onReject'')
         (snd (Promise_publish None (init u)))))"
  have sealed: "sealed (promise ?p) ?s1"
    using assms by (simp add: publish_defs rt_defs cong: let_weak_cong)
  have idle: "idle (run 2 ?s1)"
    using assms by (simp add: publish_defs rt_defs cong: let_weak_cong)
  have eq: "publish_run None (CallResolve v # cs @ [Turns 2]) (init u) = (?p, run 2 ?s1)"
    using later_calls_are_ignored [OF sealed idle, of cs]
    by (simp add: publish_run_def Let_def)
  have "idle (run 2 ?s1) \<and> calls ''onResolve'' (run 2 ?s1) = [[v]]
      \<and> calls ''onReject'' (run 2 ?s1) = []
      \<and> state_of (promise ?p) (run 2 ?s1) = Fulfilled v
      \<and> settlements (promise ?p) (run 2 ?s1) = [(Fulfilled v, 0)]"
    using assms by (simp add: publish_defs rt_defs cong: let_weak_cong)
  with eq show ?thesis by simp
qed

lemma publish_reject_delivers_once:
  "case publish_run None (CallReject e # cs @ [Turns 2]) (init u) of (p, s) \<Rightarrow>
     idle s \<and> calls ''onResolve'' s = [] \<and> calls ''onReject'' s = [[e]]
     \<and> state_of (promise p) s = Rejected e
     \<and> settlements (promise p) s = [(Rejected e, 0)]"
proof -
  let ?p = "fst (Promise_publish None (init u))"
  let ?s1 = "PublishedPromise_reject ?p e
      (snd (PublishedPromise_then ?p (observer ''onResolve'') (observer ''onReject'')
         (snd (Promise_publish None (init u)))))"
  have sealed: "sealed (promise ?p) ?s1"
    by (simp add: publish_defs rt_defs cong: let_weak_cong)
  have idle: "idle (run 2 ?s1)"
    by (simp add: publish_defs rt_defs cong: let_weak_cong)
  have eq: "publish_run None (CallReject e # cs @ [Turns 2]) (init u) = (?p, run 2 ?s1)"
    using later_calls_are_ignored [OF sealed idle, of cs]
    by (simp add: publish_run_def Let_def)
  have "idle (run 2 ?s1) \<and> calls ''onResolve'' (run 2 ?s1) = []
      \<and> calls ''onReject'' (run 2 ?s1) = [[e]]
      \<and> state_of (promise ?p) (run 2 ?s1) = Rejected e
      \<and> settlements (promise ?p) (run 2 ?s1) = [(Rejected e, 0)]"
    by (simp add: publish_defs rt_defs cong: let_weak_cong)
  with eq show ?thesis by simp
qed

lemma publish_producer_first:
  assumes "g u = (c, u1)" and "direct c"
  shows "case publish_run (Some (producer g)) (cs @ [Turns 2]) (init u) of (p, s) \<Rightarrow>
           idle s \<and> calls ''producer'' s = [[]]
           \<and> calls ''onResolve'' s = [[x]. Return x \<leftarrow> [c]]
           \<and> calls ''onReject'' s = [[e]. Throw e \<leftarrow> [c]]
           \<and> state_of (promise p) s = settles_as c
           \<and> settlements (promise p) s = [(settles_as c, 0)]"
proof -
  let ?p = "fst (Promise_publish (Some (producer g)) (init u))"
  let ?s1 = "snd (PublishedPromise_then ?p (observer ''onResolve'') (observer ''onReject'')
         (snd (Promise_publish (Some (producer g)) (init u))))"
  have sealed: "sealed (promise ?p) ?s1"
    using assms by (cases c) (simp_all add: publish_defs rt_defs cong: let_weak_cong)
  have idle: "idle (run 2 ?s1)"
    using assms by (cases c) (simp_all add: publish_defs rt_defs cong: let_weak_cong)
  have eq: "publish_run (Some (producer g)) (cs @ [Turns 2]) (init u) = (?p, run 2 ?s1)"
    using later_calls_are_ignored [OF sealed idle, of cs]
    by (simp add: publish_run_def Let_def)
  have "idle (run 2 ?s1) \<and> calls ''producer'' (run 2 ?s1) = [[]]
      \<and> calls ''onResolve'' (run 2 ?s1) = [[x]. Return x \<leftarrow> [c]]
      \<and> calls ''onReject'' (run 2 ?s1) = [[e]. Throw e \<leftarrow> [c]]
      \<and> state_of (promise ?p) (run 2 ?s1) = settles_as c
      \<and> settlements (promise ?p) (run 2 ?s1) = [(settles_as c, 0)]"
    using assms by (cases c) (simp_all add: publish_defs rt_defs cong: let_weak_cong)
  with eq show ?thesis by simp
qed

lemma publish_call_before_timer:
  assumes "f u = (settling_after t c, u1)" and "\<not> thenable v"
  shows "case publish_run (Some (SupUser ''producer'' f)) (CallResolve v # cs @ [Turns 3]) (init u)
         of (p, s) \<Rightarrow>
           idle s \<and> calls ''producer'' s = [[]]
           \<and> calls ''onResolve'' s = [[v]] \<and> calls ''onReject'' s = []
           \<and> state_of (promise p) s = Fulfilled v
           \<and> settlements (promise p) s = [(Fulfilled v, 0)]"
proof -
  let ?fn = "Some (SupUser ''producer'' f)"
  let ?p = "fst (Promise_publish ?fn (init u))"
  let ?s1 = "PublishedPromise_resolve ?p v
      (snd (PublishedPromise_then ?p (observer ''onResolve'') (observer ''onReject'')
         (snd (Promise_publish ?fn (init u)))))"
  have sealed: "sealed (promise ?p) ?s1"
    using assms by (cases c) (simp_all add: publish_defs rt_defs cong: let_weak_cong)
  have idle: "idle (run 3 ?s1)"
    using assms by (cases c) (simp_all add: publish_defs rt_defs cong: let_weak_cong)
  have eq: "publish_run ?fn (CallResolve v # cs @ [Turns 3]) (init u) = (?p, run 3 ?s1)"
    using later_calls_are_ignored [OF sealed idle, of cs]
    by (simp add: publish_run_def Let_def)
  have "idle (run 3 ?s1) \<and> calls ''producer'' (run 3 ?s1) = [[]]
      \<and> calls ''onResolve'' (run 3 ?s1) = [[v]] \<and> calls ''onReject'' (run 3 ?s1) = []
      \<and> state_of (promise ?p) (run 3 ?s1) = Fulfilled v
      \<and> settlements (promise ?p) (run 3 ?s1) = [(Fulfilled v, 0)]"
    using assms by (cases c) (simp_all add: publish_defs rt_defs cong: let_weak_cong)
  with eq show ?thesis by simp
qed

lemma publish_timer_before_call:
  assumes "f u = (settling_after t c, u1)" and "direct c"
  shows "case publish_run (Some (SupUser ''producer'' f)) (Turns 1 # cs @ [Turns 2]) (init u)
         of (p, s) \<Rightarrow>
           idle s \<and> calls ''producer'' s = [[]]
           \<and> calls ''onResolve'' s = [[x]. Return x \<leftarrow> [c]]
           \<and> calls ''onReject'' s = [[e]. Throw e \<leftarrow> [c]]
           \<and> state_of (promise p) s = settles_as c
           \<and> settlements (promise p) s = [(settles_as c, timer_delay t)]"
proof -
  let ?fn = "Some (SupUser ''producer'' f)"
  let ?p = "fst (Promise_publish ?fn (init u))"
  let ?s1 = "run 1
      (snd (PublishedPromise_then ?p (observer ''onResolve'') (observer ''onReject'')
         (snd (Promise_publish ?fn (init u)))))"
  have sealed: "sealed (promise ?p) ?s1"
    using assms by (cases c) (simp_all add: publish_defs rt_defs cong: let_weak_cong)
  have idle: "idle (run 2 ?s1)"
    using assms by (cases c) (simp_all add: publish_defs rt_defs cong: let_weak_cong)
  have eq: "publish_run ?fn (Turns 1 # cs @ [Turns 2]) (init u) = (?p, run 2 ?s1)"
    using later_calls_are_ignored [OF sealed idle, of cs]
    by (simp add: publish_run_def Let_def)
  have "idle (run 2 ?s1) \<and> calls ''producer'' (run 2 ?s1) = [[]]
      \<and> calls ''onResolve'' (run 2 ?s1) = [[x]. Return x \<leftarrow> [c]]
      \<and> calls ''onReject'' (run 2 ?s1) = [[e]. Throw e \<leftarrow> [c]]
      \<and> state_of (promise ?p) (run 2 ?s1) = settles_as c
      \<and> settlements (promise ?p) (run 2 ?s1) = [(settles_as c, timer_delay t)]"
    using assms by (cases c) (simp_all add: publish_defs rt_defs cong: let_weak_cong)
  with eq show ?thesis by simp
qed

lemma publish_runs_producer_at_construction:
  "calls name (snd (Promise_publish (Some (SupUser name f)) s)) = calls name s @ [[]]"
  by (simp add: Promise_publish_def new_PublishedPromise_def Let_def) (simp add: calls_def alloc_def)

lemma settling_call_seals:
  "promise p < fresh s \<Longrightarrow>
   sealed (promise p) (PublishedPromise_resolve p v s)
   \<and> sealed (promise p) (PublishedPromise_reject p v s)"
proof (cases "locked (heap s (promise p))")
  case True
  assume "promise p < fresh s"
  with True show ?thesis
    by (simp add: PublishedPromise_resolve_def PublishedPromise_reject_def resolve_fn_def
        reject_fn_def sealed_def)
next
  case False
  assume b: "promise p < fresh s"
  let ?s = "s\<lparr>heap := (heap s)(promise p := (heap s (promise p))\<lparr>locked := True\<rparr>)\<rparr>"
  from b have "sealed (promise p) ?s" by (simp add: sealed_def)
  then have "sealed (promise p) (promise_resolve (promise p) v ?s)"
    and "sealed (promise p) (settle (promise p) (Rejected v) ?s)"
    by simp_all
  with False show ?thesis
    by (simp add: PublishedPromise_resolve_def PublishedPromise_reject_def resolve_fn_def
        reject_fn_def)
qed

lemma sealed_calls_change_nothing:
  "sealed (promise p) s \<Longrightarrow>
   PublishedPromise_resolve p w s = s \<and> PublishedPromise_reject p w s = s
   \<and> sealed (promise p) (run n s)"
  by (simp add: PublishedPromise_resolve_def PublishedPromise_reject_def sealed_noop sealed_run)

subsection \<open>A promise settles at most once\<close>

lemma spent_once: "spent p s \<Longrightarrow> once p s"
  by (simp add: spent_def once_def)

lemma moved_carriers:
  "length (filter (carries_j p) [ReactionJob f r d st. (q', f, r, d) \<leftarrow> ws, q' = q])
   + length (filter (carries_w p) [w \<leftarrow> ws. fst w \<noteq> q])
   = length (filter (carries_w p) ws)"
  by (induction ws) auto

lemma settlements_settle:
  "settlements p (settle q st s) = settlements p s @ (if q = p then [(st, clock s)] else [])"
  by (simp add: settlements_def settle_def)

lemma tokens_settle:
  "tokens p (settle q st s) = tokens p s + (if q = p then 1 else 0)"
  using moved_carriers [where p = p and st = st and q = q and ws = "waiting s"]
  by (cases "q = p") (simp_all add: tokens_def settlements_settle, simp_all add: settle_def)

lemma locked_settle [simp]: "locked (heap (settle q st s) p) = locked (heap s p)"
  by (simp add: settle_def)

lemma once_settle_other: "q \<noteq> p \<Longrightarrow> once p s \<Longrightarrow> once p (settle q st s)"
  by (simp add: once_def tokens_settle)

lemma spent_settle_other: "q \<noteq> p \<Longrightarrow> spent p s \<Longrightarrow> spent p (settle q st s)"
  by (simp add: spent_def tokens_settle)

lemma spent_settle_self: "spent p s \<Longrightarrow> once p (settle p st s)"
  by (simp add: spent_def once_def tokens_settle)

lemma tokens_bump [simp]: "tokens p (s\<lparr>fresh := n\<rparr>) = tokens p s"
  by (simp add: tokens_def settlements_def)

lemma once_bump: "once p s \<Longrightarrow> once p (s\<lparr>fresh := Suc (fresh s)\<rparr>)"
  by (simp add: once_def)

lemma spent_bump: "spent p s \<Longrightarrow> spent p (s\<lparr>fresh := Suc (fresh s)\<rparr>)"
  by (simp add: spent_def)

lemma tokens_add_job:
  "tokens p (s\<lparr>jobs := jobs s @ [j]\<rparr>) = tokens p s + (if carries_j p j then 1 else 0)"
  by (simp add: tokens_def settlements_def)

lemma tokens_add_wait:
  "tokens p (s\<lparr>waiting := waiting s @ [w]\<rparr>) = tokens p s + (if carries_w p w then 1 else 0)"
  by (simp add: tokens_def settlements_def)

lemma once_promise_resolve_other:
  "q \<noteq> p \<Longrightarrow> once p s \<Longrightarrow> once p (promise_resolve q v s)"
  by (cases v) (simp_all add: promise_resolve_def once_settle_other once_bump,
      simp_all add: once_def tokens_add_job)

lemma spent_promise_resolve_self: "spent p s \<Longrightarrow> once p (promise_resolve p v s)"
  by (cases v) (simp_all add: promise_resolve_def spent_settle_self spent_bump,
      simp_all add: once_def spent_def tokens_add_job)

lemma tokens_heap_lock [simp]:
  "tokens p (s\<lparr>heap := h\<rparr>) = tokens p s"
  by (simp add: tokens_def settlements_def)

lemma once_lock_other:
  "q \<noteq> p \<Longrightarrow> once p s \<Longrightarrow> once p (s\<lparr>heap := (heap s)(q := (heap s q)\<lparr>locked := True\<rparr>)\<rparr>)"
  by (simp add: once_def)

lemma spent_lock_self:
  "once p s \<Longrightarrow> \<not> locked (heap s p) \<Longrightarrow>
   spent p (s\<lparr>heap := (heap s)(p := (heap s p)\<lparr>locked := True\<rparr>)\<rparr>)"
  by (auto simp add: once_def spent_def)

lemma once_resolve_fn: "once p s \<Longrightarrow> once p (resolve_fn q v s)"
  by (cases "q = p")
     (simp_all add: resolve_fn_def spent_promise_resolve_self spent_lock_self
        once_promise_resolve_other once_lock_other)

lemma once_reject_fn: "once p s \<Longrightarrow> once p (reject_fn q v s)"
  by (cases "q = p")
     (simp_all add: reject_fn_def spent_settle_self spent_lock_self
        once_settle_other once_lock_other)


lemma once_setTimeout: "once p s \<Longrightarrow> once p (setTimeout cb t s)"
  by (simp add: once_def setTimeout_def tokens_def settlements_def)

lemma once_alloc: "once p s \<Longrightarrow> once p (snd (alloc s))"
  by (auto simp add: once_def alloc_def tokens_def settlements_def)

lemma spent_alloc: "spent p s \<Longrightarrow> spent p (snd (alloc s))"
  by (auto simp add: spent_def alloc_def tokens_def settlements_def)

lemma once_set_var: "once p s \<Longrightarrow> once p (set_var i v s)"
  by (simp add: once_def set_var_def tokens_def settlements_def)

lemma once_new_var: "once p s \<Longrightarrow> once p (snd (new_var v s))"
  by (simp add: once_def new_var_def tokens_def settlements_def)

lemma once_called:
  "once p (s\<lparr>user := u, trace := trace s @ [Called n a]\<rparr>) = once p s"
  by (simp add: once_def tokens_def settlements_def)

lemma once_add_job: "once p s \<Longrightarrow> \<not> carries_j p j \<Longrightarrow> once p (s\<lparr>jobs := jobs s @ [j]\<rparr>)"
  by (simp add: once_def tokens_add_job)

lemma once_add_wait: "once p s \<Longrightarrow> \<not> carries_w p w \<Longrightarrow> once p (s\<lparr>waiting := waiting s @ [w]\<rparr>)"
  by (simp add: once_def tokens_add_wait)

lemma spent_add_job: "spent p s \<Longrightarrow> once p (s\<lparr>jobs := jobs s @ [j]\<rparr>)"
  by (simp add: once_def spent_def tokens_add_job)

lemma spent_add_wait: "spent p s \<Longrightarrow> once p (s\<lparr>waiting := waiting s @ [w]\<rparr>)"
  by (simp add: once_def spent_def tokens_add_wait)

lemma once_then:
  "once p s \<Longrightarrow> \<not> carries_h p f \<Longrightarrow> \<not> carries_h p r \<Longrightarrow> once p (snd (Promise_then q f r s))"
  by (cases "pstate (heap (snd (alloc s)) q)")
     (simp_all add: Promise_then_alloc once_add_job once_add_wait once_alloc)

lemma spent_then: "spent p s \<Longrightarrow> once p (snd (Promise_then q f r s))"
  by (cases "pstate (heap (snd (alloc s)) q)")
     (simp_all add: Promise_then_alloc spent_add_job spent_add_wait spent_alloc)

lemma once_exec_actions: "once p s \<Longrightarrow> once p (exec_actions acts q s)"
  by (induction acts q s rule: exec_actions.induct)
     (simp_all add: once_resolve_fn once_reject_fn once_setTimeout)

lemma once_run_supplier: "once p s \<Longrightarrow> once p (run_supplier sp q s)"
  by (cases sp)
     (simp_all add: once_resolve_fn once_reject_fn once_setTimeout once_exec_actions
        once_called Let_def)

lemma once_new_Promise: "once p s \<Longrightarrow> once p (snd (new_Promise sp s))"
  by (simp add: new_Promise_def Let_def once_run_supplier once_alloc)

lemma once_Promise_resolve: "once p s \<Longrightarrow> once p (snd (Promise_resolve x s))"
  by (cases x) (simp_all add: Promise_resolve_def once_new_Promise)

lemma once_Promise_reject: "once p s \<Longrightarrow> once p (snd (Promise_reject x s))"
  by (simp add: Promise_reject_def once_new_Promise)

lemma once_call_fn: "once p s \<Longrightarrow> once p (snd (call_fn f args s))"
  by (cases f) (simp_all add: Let_def once_called)

lemma once_resub_always: "once p s \<Longrightarrow> once p (snd (resub_always sp s))"
  by (simp add: resub_always_def Let_def once_then once_new_Promise)

lemma once_resub_test: "once p s \<Longrightarrow> once p (snd (resub_test sp t f s))"
  by (simp add: resub_test_def Let_def once_then once_new_Promise)

lemma once_call_handler:
  "once p s \<Longrightarrow> \<not> carries_h p h \<Longrightarrow> once p (snd (call_handler h x s))"
proof (cases h)
  case (RetryTest sp tries f)
  assume o: "once p s"
  let ?called = "call_fn f [VNum (num_of (vars s tries) + 1), x]
      (set_var tries (VNum (num_of (vars s tries) + 1)) s)"
  from o have c: "once p (snd ?called)" by (simp add: once_call_fn once_set_var)
  show ?thesis
  proof (cases "fst ?called")
    case (Throw e)
    with RetryTest c show ?thesis by (simp add: Let_def)
  next
    case (Return b)
    with RetryTest c show ?thesis
      by (simp add: Let_def once_resub_test once_Promise_reject)
  qed
next
  case (FinallyOk fin)
  assume o: "once p s"
  then have c: "once p (snd (call_fn fin [] s))" by (rule once_call_fn)
  show ?thesis
  proof (cases "fst (call_fn fin [] s)")
    case (Throw e)
    with FinallyOk c show ?thesis by (simp add: Let_def)
  next
    case (Return w)
    with FinallyOk c show ?thesis
      by (simp add: Let_def once_then once_Promise_resolve)
  qed
next
  case (FinallyErr fin)
  assume o: "once p s"
  then have c: "once p (snd (call_fn fin [] s))" by (rule once_call_fn)
  show ?thesis
  proof (cases "fst (call_fn fin [] s)")
    case (Throw e)
    with FinallyErr c show ?thesis by (simp add: Let_def)
  next
    case (Return w)
    with FinallyErr c show ?thesis
      by (simp add: Let_def once_then once_Promise_resolve)
  qed
qed (simp_all add: once_resolve_fn once_reject_fn once_promise_resolve_other once_settle_other
       once_call_fn once_resub_always once_set_var once_bump Let_def)

lemma spent_call_handler:
  "spent p s \<Longrightarrow> carries_h p h \<Longrightarrow> once p (snd (call_handler h x s))"
  by (cases h) (simp_all add: spent_promise_resolve_self spent_settle_self)

lemma once_finish: "once p s \<Longrightarrow> once p (finish d c s)"
  by (cases c) (simp_all add: once_resolve_fn once_reject_fn)

lemma once_drop_job:
  assumes "once p s" and "jobs s = j # js"
  shows "if carries_j p j then spent p (s\<lparr>jobs := js\<rparr>) else once p (s\<lparr>jobs := js\<rparr>)"
  using assms by (auto simp add: once_def spent_def tokens_def settlements_def)

lemma once_run_job:
  assumes o: "once p s" and js: "jobs s = j # js"
  shows "once p (run_job j (s\<lparr>jobs := js\<rparr>))"
proof -
  let ?s = "s\<lparr>jobs := js\<rparr>"
  from once_drop_job [OF o js]
  have sp: "carries_j p j \<Longrightarrow> spent p ?s" and on: "\<not> carries_j p j \<Longrightarrow> once p ?s"
    by (simp_all split: if_splits)
  have any: "once p ?s" using sp on spent_once by blast
  show ?thesis
  proof (cases j)
    case (ThenableJob t q)
    show ?thesis
    proof (cases "t = p")
      case True
      with ThenableJob sp have "spent p ?s" by simp
      then have "once p (snd (Promise_then q (ThenableResolve p) (ThenableReject p) ?s))"
        by (rule spent_then)
      with ThenableJob True show ?thesis by simp
    next
      case False
      with ThenableJob on have "once p ?s" by simp
      then have "once p (snd (Promise_then q (ThenableResolve t) (ThenableReject t) ?s))"
        using False by (intro once_then) simp_all
      with ThenableJob show ?thesis by simp
    qed
  next
    case (ReactionJob f r d st)
    have h: "once p (snd (call_handler h x ?s))" if "h = f \<or> h = r" for h x
    proof (cases "carries_h p h")
      case True
      with that ReactionJob have "carries_j p j" by auto
      then have "spent p ?s" by (rule sp)
      then show ?thesis using True by (rule spent_call_handler)
    next
      case False
      with any show ?thesis by (rule once_call_handler)
    qed
    show ?thesis
    proof (cases st)
      case Pending
      with ReactionJob any show ?thesis by simp
    next
      case (Fulfilled v)
      with ReactionJob h [of f v] show ?thesis by (simp add: Let_def once_finish)
    next
      case (Rejected e)
      with ReactionJob h [of r e] show ?thesis by (simp add: Let_def once_finish)
    qed
  qed
qed

lemma once_fire: "once p s \<Longrightarrow> once p (fire cb s)"
proof (cases cb)
  case (TimerSettle b q v)
  assume "once p s"
  with TimerSettle show ?thesis by (cases b) (simp_all add: once_resolve_fn once_reject_fn)
next
  case (TimeoutCheck success this r)
  assume "once p s"
  with TimeoutCheck show ?thesis
    by (simp add: once_resolve_fn once_reject_fn once_bump)
qed

lemma once_timers: "once p (s\<lparr>timers := ts, clock := c\<rparr>) = once p s"
  by (simp add: once_def tokens_def settlements_def)

lemma once_step:
  assumes o: "once p s" and st: "step s = Some s'"
  shows "once p s'"
proof (cases "jobs s")
  case Nil
  with st obtain x rest where
    "s' = fire (snd x) (s\<lparr>timers := rest, clock := max (clock s) (fst x)\<rparr>)"
    by (auto simp add: step_def split: option.splits)
  with o show ?thesis by (simp add: once_fire once_timers)
next
  case (Cons j js)
  with st have "s' = run_job j (s\<lparr>jobs := js\<rparr>)" by (simp add: step_def)
  with once_run_job [OF o Cons] show ?thesis by simp
qed

lemma once_run: "once p s \<Longrightarrow> once p (run n s)"
proof (induction n arbitrary: s)
  case 0
  then show ?case by simp
next
  case (Suc n)
  then show ?case by (cases "step s") (auto dest: once_step)
qed

lemma once_do_calls: "once (promise p) s \<Longrightarrow> once (promise p) (do_calls p cs s)"
proof (induction cs arbitrary: s)
  case Nil
  then show ?case by simp
next
  case (Cons c cs)
  then show ?case
    by (cases c)
       (simp_all add: PublishedPromise_resolve_def PublishedPromise_reject_def
          once_resolve_fn once_reject_fn once_run)
qed

lemma once_publish_run:
  "once (promise (fst (publish_run fn cs (init u)))) (snd (publish_run fn cs (init u)))"
proof -
  have 0: "once 0 (snd (alloc (init u)))"
    by (simp add: once_def alloc_def init_def tokens_def settlements_def)
  have 1: "once 0 (snd (Promise_publish fn (init u)))"
    using 0 by (cases fn) (simp_all add: Promise_publish_def new_PublishedPromise_def Let_def
        once_run_supplier)
  have p: "promise (fst (Promise_publish fn (init u))) = 0"
    by (simp add: Promise_publish_def new_PublishedPromise_def Let_def alloc_def init_def)
  from 1 have "once 0 (snd (PublishedPromise_then (fst (Promise_publish fn (init u)))
      (observer ''onResolve'') (observer ''onReject'') (snd (Promise_publish fn (init u)))))"
    by (simp add: PublishedPromise_then_def observer_def once_then)
  then show ?thesis
    using once_do_calls [of "fst (Promise_publish fn (init u))" _ cs]
    by (simp add: publish_run_def Let_def p)
qed

lemma publish_settles_at_most_once:
  "length (settlements (promise (fst (publish_run fn cs (init u))))
             (snd (publish_run fn cs (init u)))) \<le> 1"
  using once_publish_run [of fn cs u] by (simp add: once_def tokens_def)

text \<open>
  C9, as the claim states it, at a value that is a promise: with \<open>q\<close> already fulfilled
  with \<open>1\<close>, \<^verbatim>\<open>let p = Promise.publish(); p.then(onResolve, onReject); p.resolve(q);\<close>
  delivers \<open>1\<close> to the continuation, and not \<open>q\<close>.
\<close>

theorem published_resolve_of_promise_delivers_its_value:
  "calls ''onResolve''
     (snd (publish_run None [CallResolve (VPromise 0), Turns 4]
        (snd (Promise_resolve (VNum 1) (init ()))))) = [[VNum 1]]"
  by (simp add: publish_defs rt_defs cong: let_weak_cong)

text \<open>
  C9, amended. With a continuation attached, \<^verbatim>\<open>resolve(v)\<close> for a \<open>v\<close> that is not
  thenable delivers \<open>v\<close> to the success continuation exactly once, and \<^verbatim>\<open>reject(e)\<close>
  delivers \<open>e\<close> to the failure continuation exactly once; whatever calls of \<^verbatim>\<open>resolve\<close>
  and \<^verbatim>\<open>reject\<close> and turns of the event loop follow, the trace of calls, the state of the
  promise and its single settlement are the same. In every state, a call of \<^verbatim>\<open>resolve\<close>
  or \<^verbatim>\<open>reject\<close> seals the promise, and on a sealed promise each of them returns the state
  unchanged. A producer given to \<^verbatim>\<open>Promise.publish\<close> runs inside the constructor. The
  first to call a resolving function wins: a producer that settles the promise at once
  decides the outcome whatever the caller does afterwards; a call of \<^verbatim>\<open>resolve\<close> that comes
  before the timer of the producer decides it, and the timer changes nothing; the timer
  decides it when it fires before the calls. For every producer, with any actions, and
  every sequence of calls and turns, the promise has settled at most once.
\<close>

theorem published_promise_settles_once:
  "(\<not> thenable v \<longrightarrow>
      (case publish_run None (CallResolve v # cs @ [Turns 2]) (init u) of (p, s) \<Rightarrow>
         idle s \<and> calls ''onResolve'' s = [[v]] \<and> calls ''onReject'' s = []
         \<and> state_of (promise p) s = Fulfilled v
         \<and> settlements (promise p) s = [(Fulfilled v, 0)]))
   \<and> (case publish_run None (CallReject e # cs @ [Turns 2]) (init u) of (p, s) \<Rightarrow>
         idle s \<and> calls ''onResolve'' s = [] \<and> calls ''onReject'' s = [[e]]
         \<and> state_of (promise p) s = Rejected e
         \<and> settlements (promise p) s = [(Rejected e, 0)])
   \<and> (promise pp < fresh st \<longrightarrow>
         sealed (promise pp) (PublishedPromise_resolve pp v st)
         \<and> sealed (promise pp) (PublishedPromise_reject pp v st))
   \<and> (sealed (promise pp) st \<longrightarrow>
         PublishedPromise_resolve pp w st = st \<and> PublishedPromise_reject pp w st = st
         \<and> sealed (promise pp) (run n st))
   \<and> calls name (snd (Promise_publish (Some (SupUser name h)) st)) = calls name st @ [[]]
   \<and> (g u = (c, u1) \<and> direct c \<longrightarrow>
      (case publish_run (Some (producer g)) (cs @ [Turns 2]) (init u) of (p, s) \<Rightarrow>
         idle s \<and> calls ''producer'' s = [[]]
         \<and> calls ''onResolve'' s = [[x]. Return x \<leftarrow> [c]]
         \<and> calls ''onReject'' s = [[x]. Throw x \<leftarrow> [c]]
         \<and> state_of (promise p) s = settles_as c
         \<and> settlements (promise p) s = [(settles_as c, 0)]))
   \<and> (f u = (settling_after t c, u1) \<and> \<not> thenable v \<longrightarrow>
      (case publish_run (Some (SupUser ''producer'' f)) (CallResolve v # cs @ [Turns 3]) (init u)
       of (p, s) \<Rightarrow>
         idle s \<and> calls ''producer'' s = [[]]
         \<and> calls ''onResolve'' s = [[v]] \<and> calls ''onReject'' s = []
         \<and> state_of (promise p) s = Fulfilled v
         \<and> settlements (promise p) s = [(Fulfilled v, 0)]))
   \<and> (f u = (settling_after t c, u1) \<and> direct c \<longrightarrow>
      (case publish_run (Some (SupUser ''producer'' f)) (Turns 1 # cs @ [Turns 2]) (init u)
       of (p, s) \<Rightarrow>
         idle s \<and> calls ''producer'' s = [[]]
         \<and> calls ''onResolve'' s = [[x]. Return x \<leftarrow> [c]]
         \<and> calls ''onReject'' s = [[x]. Throw x \<leftarrow> [c]]
         \<and> state_of (promise p) s = settles_as c
         \<and> settlements (promise p) s = [(settles_as c, timer_delay t)]))
   \<and> length (settlements (promise (fst (publish_run fn cs (init u))))
                (snd (publish_run fn cs (init u)))) \<le> 1"
proof -
  have a: "\<not> thenable v \<longrightarrow>
      (case publish_run None (CallResolve v # cs @ [Turns 2]) (init u) of (p, s) \<Rightarrow>
         idle s \<and> calls ''onResolve'' s = [[v]] \<and> calls ''onReject'' s = []
         \<and> state_of (promise p) s = Fulfilled v
         \<and> settlements (promise p) s = [(Fulfilled v, 0)])"
    using publish_resolve_delivers_once [of v cs u] by simp
  have b: "promise pp < fresh st \<longrightarrow>
         sealed (promise pp) (PublishedPromise_resolve pp v st)
         \<and> sealed (promise pp) (PublishedPromise_reject pp v st)"
    using settling_call_seals [of pp st v] by simp
  have c: "sealed (promise pp) st \<longrightarrow>
         PublishedPromise_resolve pp w st = st \<and> PublishedPromise_reject pp w st = st
         \<and> sealed (promise pp) (run n st)"
    using sealed_calls_change_nothing [of pp st w n] by simp
  have d: "g u = (c, u1) \<and> direct c \<longrightarrow>
      (case publish_run (Some (producer g)) (cs @ [Turns 2]) (init u) of (p, s) \<Rightarrow>
         idle s \<and> calls ''producer'' s = [[]]
         \<and> calls ''onResolve'' s = [[x]. Return x \<leftarrow> [c]]
         \<and> calls ''onReject'' s = [[x]. Throw x \<leftarrow> [c]]
         \<and> state_of (promise p) s = settles_as c
         \<and> settlements (promise p) s = [(settles_as c, 0)])"
    using publish_producer_first [of g u c u1 cs] by simp
  have e: "f u = (settling_after t c, u1) \<and> \<not> thenable v \<longrightarrow>
      (case publish_run (Some (SupUser ''producer'' f)) (CallResolve v # cs @ [Turns 3]) (init u)
       of (p, s) \<Rightarrow>
         idle s \<and> calls ''producer'' s = [[]]
         \<and> calls ''onResolve'' s = [[v]] \<and> calls ''onReject'' s = []
         \<and> state_of (promise p) s = Fulfilled v
         \<and> settlements (promise p) s = [(Fulfilled v, 0)])"
    using publish_call_before_timer [of f u t c u1 v cs] by simp
  have f: "f u = (settling_after t c, u1) \<and> direct c \<longrightarrow>
      (case publish_run (Some (SupUser ''producer'' f)) (Turns 1 # cs @ [Turns 2]) (init u)
       of (p, s) \<Rightarrow>
         idle s \<and> calls ''producer'' s = [[]]
         \<and> calls ''onResolve'' s = [[x]. Return x \<leftarrow> [c]]
         \<and> calls ''onReject'' s = [[x]. Throw x \<leftarrow> [c]]
         \<and> state_of (promise p) s = settles_as c
         \<and> settlements (promise p) s = [(settles_as c, timer_delay t)])"
    using publish_timer_before_call [of f u t c u1 cs] by simp
  show ?thesis
    by (rule conjI [OF a conjI [OF publish_reject_delivers_once conjI [OF b conjI [OF c
          conjI [OF publish_runs_producer_at_construction conjI [OF d conjI [OF e
            conjI [OF f publish_settles_at_most_once]]]]]]]])
qed

theorem published_promise_settles_once_witness:
  "\<not> thenable (VStr ''Hello World'')
   \<and> (case publish_run None
             [CallResolve (VStr ''Hello World''), CallResolve (VNum 2), CallReject (VNum 3), Turns 2]
             (init ()) of
        (p, s) \<Rightarrow> idle s \<and> calls ''onResolve'' s = [[VStr ''Hello World'']]
                  \<and> calls ''onReject'' s = []
                  \<and> state_of (promise p) s = Fulfilled (VStr ''Hello World''))
   \<and> promise (PublishedPromise 0) < fresh (snd (Promise_publish None (init ())))
   \<and> sealed 0 (PublishedPromise_reject (PublishedPromise 0) (VNum 1)
                 (snd (Promise_publish None (init ()))))
   \<and> PublishedPromise_resolve (PublishedPromise 0) (VNum 2)
        (PublishedPromise_reject (PublishedPromise 0) (VNum 1) (snd (Promise_publish None (init ()))))
      = PublishedPromise_reject (PublishedPromise 0) (VNum 1) (snd (Promise_publish None (init ())))
   \<and> direct (Throw (VStr ''no''))
   \<and> (case publish_run (Some (producer (\<lambda>u. (Throw (VStr ''no''), u))))
             [CallResolve (VNum 1), Turns 2] (init ()) of
        (p, s) \<Rightarrow> idle s \<and> calls ''onResolve'' s = [] \<and> calls ''onReject'' s = [[VStr ''no'']]
                  \<and> state_of (promise p) s = Rejected (VStr ''no''))
   \<and> (case publish_run (Some (SupUser ''producer'' (\<lambda>u. ([LaterRej 5 (VStr ''no'')], u))))
             [CallResolve (VNum 1), Turns 3] (init ()) of
        (p, s) \<Rightarrow> idle s \<and> calls ''onResolve'' s = [[VNum 1]] \<and> calls ''onReject'' s = []
                  \<and> state_of (promise p) s = Fulfilled (VNum 1))
   \<and> (case publish_run (Some (SupUser ''producer'' (\<lambda>u. ([LaterRej 5 (VStr ''no'')], u))))
             [Turns 1, CallResolve (VNum 1), Turns 2] (init ()) of
        (p, s) \<Rightarrow> idle s \<and> calls ''onResolve'' s = [] \<and> calls ''onReject'' s = [[VStr ''no'']]
                  \<and> state_of (promise p) s = Rejected (VStr ''no''))"
proof -
  note t = published_promise_settles_once
  let ?st = "snd (Promise_publish None (init ()))"
  let ?pp = "PublishedPromise 0"
  have a: "case publish_run None
             [CallResolve (VStr ''Hello World''), CallResolve (VNum 2), CallReject (VNum 3), Turns 2]
             (init ()) of
        (p, s) \<Rightarrow> idle s \<and> calls ''onResolve'' s = [[VStr ''Hello World'']]
                  \<and> calls ''onReject'' s = []
                  \<and> state_of (promise p) s = Fulfilled (VStr ''Hello World'')"
    using t [THEN conjunct1,
             of "VStr ''Hello World''" "[CallResolve (VNum 2), CallReject (VNum 3)]" "()"]
    by (simp add: case_prod_beta)
  have fr: "promise ?pp < fresh ?st"
    by (simp add: Promise_publish_def new_PublishedPromise_def alloc_def init_def Let_def)
  have b: "sealed 0 (PublishedPromise_reject ?pp (VNum 1) ?st)"
    using t [THEN conjunct2, THEN conjunct2, THEN conjunct1, of ?pp ?st "VNum 1"] fr
    by simp
  have c: "PublishedPromise_resolve ?pp (VNum 2) (PublishedPromise_reject ?pp (VNum 1) ?st)
      = PublishedPromise_reject ?pp (VNum 1) ?st"
    using t [THEN conjunct2, THEN conjunct2, THEN conjunct2, THEN conjunct1,
             of ?pp "PublishedPromise_reject ?pp (VNum 1) ?st" "VNum 2" 0] b
    by simp
  have d: "case publish_run (Some (producer (\<lambda>u. (Throw (VStr ''no''), u))))
             [CallResolve (VNum 1), Turns 2] (init ()) of
        (p, s) \<Rightarrow> idle s \<and> calls ''onResolve'' s = [] \<and> calls ''onReject'' s = [[VStr ''no'']]
                  \<and> state_of (promise p) s = Rejected (VStr ''no'')"
    using t [THEN conjunct2, THEN conjunct2, THEN conjunct2, THEN conjunct2, THEN conjunct2,
             THEN conjunct1,
             of "\<lambda>u. (Throw (VStr ''no''), u)" "()" "Throw (VStr ''no'')" "()"
                "[CallResolve (VNum 1)]"]
    by (simp add: case_prod_beta)
  have e: "case publish_run (Some (SupUser ''producer'' (\<lambda>u. ([LaterRej 5 (VStr ''no'')], u))))
             [CallResolve (VNum 1), Turns 3] (init ()) of
        (p, s) \<Rightarrow> idle s \<and> calls ''onResolve'' s = [[VNum 1]] \<and> calls ''onReject'' s = []
                  \<and> state_of (promise p) s = Fulfilled (VNum 1)"
    using t [THEN conjunct2, THEN conjunct2, THEN conjunct2, THEN conjunct2, THEN conjunct2,
             THEN conjunct2, THEN conjunct1,
             of "\<lambda>u. ([LaterRej 5 (VStr ''no'')], u)" "()" 5 "Throw (VStr ''no'')" "()"
                "VNum 1" "[]"]
    by (simp add: case_prod_beta)
  have f: "case publish_run (Some (SupUser ''producer'' (\<lambda>u. ([LaterRej 5 (VStr ''no'')], u))))
             [Turns 1, CallResolve (VNum 1), Turns 2] (init ()) of
        (p, s) \<Rightarrow> idle s \<and> calls ''onResolve'' s = [] \<and> calls ''onReject'' s = [[VStr ''no'']]
                  \<and> state_of (promise p) s = Rejected (VStr ''no'')"
    using t [THEN conjunct2, THEN conjunct2, THEN conjunct2, THEN conjunct2, THEN conjunct2,
             THEN conjunct2, THEN conjunct2, THEN conjunct1,
             of "\<lambda>u. ([LaterRej 5 (VStr ''no'')], u)" "()" 5 "Throw (VStr ''no'')" "()"
                "[CallResolve (VNum 1)]"]
    by (simp add: case_prod_beta)
  from a fr b c d e f show ?thesis by simp
qed

end
